theory Spec2Isabelle
  imports Complex_Main "HOL-Library.While_Combinator" "HOL-Library.Product_Lexorder"
begin

section \<open>Doublet score calibration and thresholding of solo.py\<close>

text \<open>
  The development embeds the numeric tail of \<^verbatim>\<open>main\<close> in \<^verbatim>\<open>src/solo/solo.py\<close>
  (lines 237 to 293): the softmax scores, the log-odds calibration loop and the
  selection of the doublet threshold.

  Numbers. numpy's float64 values are modelled by \<open>npfloat\<close>: a real number or one of the
  three special values \<open>+inf\<close>, \<open>-inf\<close> and \<open>nan\<close>. The special values follow IEEE 754 as
  numpy implements it (division by zero and the logarithm of zero warn and give an
  infinity, they do not raise). The operations \<open>fadd\<close>, \<open>fdiv\<close>, \<open>flog\<close>, \<open>fexp\<close> give
  the exact result on finite values. Where rounding decides a property, the rounded
  evaluation is written apart, with the rounding as a parameter: \<open>float_update_scores\<close>
  for line 266, and the loop itself takes the value \<open>d_s\<close> of line 258 and the evaluation
  of line 266 as parameters. The sign of zero is not modelled: no zero divisor of the code
  can be negative zero (\<open>1 - d_o\<close> is \<open>+0.0\<close> when \<open>d_o\<close> is \<open>1.0\<close>, a length is
  non-negative). Python's own \<open>float\<close> division raises \<open>ZeroDivisionError\<close>; the true
  division of two Python \<open>int\<close>s raises \<open>ZeroDivisionError\<close> or \<open>OverflowError\<close>.
\<close>

subsection \<open>numpy floating point values\<close>

datatype npfloat = Fin real | PInf | NInf | NaN

datatype error = ZeroDivisionError | OverflowError | AssertionError | ValueError | IndexError

fun fneg :: "npfloat \<Rightarrow> npfloat" where
  "fneg (Fin a) = Fin (- a)"
| "fneg PInf = NInf"
| "fneg NInf = PInf"
| "fneg NaN = NaN"

fun fadd :: "npfloat \<Rightarrow> npfloat \<Rightarrow> npfloat" where
  "fadd NaN _ = NaN"
| "fadd _ NaN = NaN"
| "fadd (Fin a) (Fin b) = Fin (a + b)"
| "fadd PInf NInf = NaN"
| "fadd NInf PInf = NaN"
| "fadd PInf _ = PInf"
| "fadd _ PInf = PInf"
| "fadd NInf _ = NInf"
| "fadd _ NInf = NInf"

definition fsub :: "npfloat \<Rightarrow> npfloat \<Rightarrow> npfloat" where
  "fsub a b = fadd a (fneg b)"

fun fdiv :: "npfloat \<Rightarrow> npfloat \<Rightarrow> npfloat" where
  "fdiv NaN _ = NaN"
| "fdiv _ NaN = NaN"
| "fdiv (Fin a) (Fin b) =
     (if b = 0 then (if a = 0 then NaN else if 0 < a then PInf else NInf)
      else Fin (a / b))"
| "fdiv (Fin a) _ = Fin 0"
| "fdiv PInf (Fin b) = (if 0 \<le> b then PInf else NInf)"
| "fdiv NInf (Fin b) = (if 0 \<le> b then NInf else PInf)"
| "fdiv _ _ = NaN"

fun flog :: "npfloat \<Rightarrow> npfloat" where
  "flog (Fin a) = (if 0 < a then Fin (ln a) else if a = 0 then NInf else NaN)"
| "flog PInf = PInf"
| "flog NInf = NaN"
| "flog NaN = NaN"

fun fexp :: "npfloat \<Rightarrow> npfloat" where
  "fexp (Fin a) = Fin (exp a)"
| "fexp PInf = PInf"
| "fexp NInf = Fin 0"
| "fexp NaN = NaN"

fun fabs :: "npfloat \<Rightarrow> npfloat" where
  "fabs (Fin a) = Fin \<bar>a\<bar>"
| "fabs PInf = PInf"
| "fabs NInf = PInf"
| "fabs NaN = NaN"

text \<open>The comparison \<^verbatim>\<open>a > b\<close>: false as soon as one side is \<open>nan\<close>.\<close>

fun fgt :: "npfloat \<Rightarrow> npfloat \<Rightarrow> bool" where
  "fgt NaN _ = False"
| "fgt _ NaN = False"
| "fgt (Fin a) (Fin b) = (b < a)"
| "fgt PInf PInf = False"
| "fgt PInf _ = True"
| "fgt NInf _ = False"
| "fgt (Fin a) PInf = False"
| "fgt (Fin a) NInf = True"

fun is_finite :: "npfloat \<Rightarrow> bool" where
  "is_finite (Fin a) = True"
| "is_finite _ = False"

text \<open>\<^verbatim>\<open>np.mean\<close>: the sum divided by the length; \<open>nan\<close> on an empty array.\<close>

definition np_sum :: "npfloat list \<Rightarrow> npfloat" where
  "np_sum xs = foldl fadd (Fin 0) xs"

definition np_mean :: "npfloat list \<Rightarrow> npfloat" where
  "np_mean xs = fdiv (np_sum xs) (Fin (real (length xs)))"

text \<open>Division of two Python floats: raises on a zero divisor.\<close>

definition py_div :: "real \<Rightarrow> real \<Rightarrow> error + real" where
  "py_div a b = (if b = 0 then Inl ZeroDivisionError else Inr (a / b))"

text \<open>
  True division \<^verbatim>\<open>a / b\<close> of two Python ints: \<open>ZeroDivisionError\<close> on a zero divisor,
  \<open>OverflowError\<close> when the quotient rounds to a value beyond the largest float64, that
  is when its absolute value is at least \<open>2^1024 - 2^970\<close>.
\<close>

definition float_overflow_bound :: real where
  "float_overflow_bound = 2 ^ 1024 - 2 ^ 970"

definition py_int_truediv :: "int \<Rightarrow> int \<Rightarrow> error + real" where
  "py_int_truediv a b =
     (if b = 0 then Inl ZeroDivisionError
      else if float_overflow_bound \<le> \<bar>real_of_int a / real_of_int b\<bar> then Inl OverflowError
      else Inr (real_of_int a / real_of_int b))"

subsection \<open>Softmax scores and slices (lines 237 to 257)\<close>

text \<open>
  \<^verbatim>\<open>logit_predictions\<close> is an array of finite logit pairs, one row per cell of the
  population (real cells first, then simulated ones). \<^verbatim>\<open>scipy.special.softmax\<close> along
  axis 1 is the normalised exponential of each row.
\<close>

definition softmax :: "(real \<times> real) list \<Rightarrow> (real \<times> real) list" where
  "softmax rows = map (\<lambda>(a, b). (exp a / (exp a + exp b), exp b / (exp a + exp b))) rows"

text \<open>\<^verbatim>\<open>doublet_score = softmax_predictions[:, 0]\<close>\<close>

definition doublet_score :: "(real \<times> real) list \<Rightarrow> npfloat list" where
  "doublet_score logit_predictions = map (\<lambda>row. Fin (fst row)) (softmax logit_predictions)"

text \<open>\<^verbatim>\<open>logit_doublet_score = logit_predictions[:, 1]\<close>\<close>

definition logit_doublet_score :: "(real \<times> real) list \<Rightarrow> real list" where
  "logit_doublet_score logit_predictions = map snd logit_predictions"

subsection \<open>The calibration loop (lines 254 to 270)\<close>

record loop_state =
  diff :: npfloat
  counter_update :: nat
  solo_scores :: "npfloat list"

text \<open>\<^verbatim>\<open>while (diff > .01) | (counter_update < 5)\<close>\<close>

definition loop_cond :: "loop_state \<Rightarrow> bool" where
  "loop_cond st \<longleftrightarrow> fgt (diff st) (Fin (1 / 100)) \<or> counter_update st < 5"

text \<open>
  \<^verbatim>\<open>c = np.log(d_o/(1-d_o)) - np.log(d_s/(1-d_s))\<close>. The first quotient is a numpy
  division of the observed mean, the second one a division of Python floats, which
  raises when \<open>1 - d_s\<close> is zero.
\<close>

definition log_odds_update :: "real \<Rightarrow> npfloat \<Rightarrow> error + npfloat" where
  "log_odds_update d_s d_o =
     (case py_div d_s (1 - d_s) of
        Inl e \<Rightarrow> Inl e
      | Inr q \<Rightarrow> Inr (fsub (flog (fdiv d_o (fsub (Fin 1) d_o))) (flog (Fin q))))"

text \<open>\<^verbatim>\<open>1 / (1+np.exp(-(logit_scores + c)))\<close>, elementwise, evaluated exactly.\<close>

definition update_scores :: "real list \<Rightarrow> npfloat \<Rightarrow> npfloat list" where
  "update_scores logit_scores c =
     map (\<lambda>l. fdiv (Fin 1) (fadd (Fin 1) (fexp (fneg (fadd (Fin l) c))))) logit_scores"

text \<open>
  The same line evaluated in float64. The result of an addition or a division is rounded
  by \<open>rnd\<close>, which maps the exact result to a float64 value (an infinity when it is out of
  range); \<open>fl_exp\<close> is \<^verbatim>\<open>np.exp\<close> on a finite argument. Both are parameters.
  \<open>float_rounding\<close> and \<open>float_exp\<close> say what is assumed of them: a rounding keeps the
  order, gives no \<open>nan\<close> and leaves 1 as it is; \<^verbatim>\<open>np.exp\<close> keeps the order and gives a
  value that is not negative and not \<open>nan\<close>. The order is numpy's order \<open>np_key\<close>.
\<close>

fun np_key :: "npfloat \<Rightarrow> nat \<times> real" where
  "np_key NInf = (0, 0)"
| "np_key (Fin a) = (1, a)"
| "np_key PInf = (2, 0)"
| "np_key NaN = (3, 0)"

definition float_rounding :: "(real \<Rightarrow> npfloat) \<Rightarrow> bool" where
  "float_rounding rnd \<longleftrightarrow>
     (\<forall>x y. x \<le> y \<longrightarrow> np_key (rnd x) \<le> np_key (rnd y)) \<and> (\<forall>x. rnd x \<noteq> NaN) \<and> rnd 1 = Fin 1"

definition float_exp :: "(real \<Rightarrow> npfloat) \<Rightarrow> bool" where
  "float_exp fl_exp \<longleftrightarrow>
     (\<forall>x y. x \<le> y \<longrightarrow> np_key (fl_exp x) \<le> np_key (fl_exp y)) \<and>
     (\<forall>x. fl_exp x \<noteq> NaN \<and> np_key (Fin 0) \<le> np_key (fl_exp x))"

definition rounded :: "(real \<Rightarrow> npfloat) \<Rightarrow> npfloat \<Rightarrow> npfloat" where
  "rounded rnd v = (case v of Fin x \<Rightarrow> rnd x | _ \<Rightarrow> v)"

definition np_exp :: "(real \<Rightarrow> npfloat) \<Rightarrow> npfloat \<Rightarrow> npfloat" where
  "np_exp fl_exp v = (case v of Fin x \<Rightarrow> fl_exp x | _ \<Rightarrow> fexp v)"

definition float_update_scores ::
  "(real \<Rightarrow> npfloat) \<Rightarrow> (real \<Rightarrow> npfloat) \<Rightarrow> real list \<Rightarrow> npfloat \<Rightarrow> npfloat list" where
  "float_update_scores rnd fl_exp logit_scores c =
     map (\<lambda>l. rounded rnd (fdiv (Fin 1)
                 (rounded rnd (fadd (Fin 1)
                    (np_exp fl_exp (fneg (rounded rnd (fadd (Fin l) c))))))))
       logit_scores"

text \<open>
  One pass of the loop, lines 262 to 270. The value \<open>d_s\<close> of line 258 and the evaluation
  \<open>upd\<close> of line 266 are parameters.
\<close>

definition loop_body ::
  "(real list \<Rightarrow> npfloat \<Rightarrow> npfloat list) \<Rightarrow> real \<Rightarrow> real list \<Rightarrow> loop_state
     \<Rightarrow> error + loop_state" where
  "loop_body upd d_s logit_scores st =
     (let d_o = np_mean (solo_scores st) in
      case log_odds_update d_s d_o of
        Inl e \<Rightarrow> Inl e
      | Inr c \<Rightarrow>
          (let scores' = upd logit_scores c in
           Inr \<lparr> diff = fabs (fsub d_o (np_mean scores')),
                 counter_update = counter_update st + 1,
                 solo_scores = scores' \<rparr>))"

text \<open>
  The loop runs on \<open>error + loop_state\<close>: an exception raised in the body ends it. Its
  result is \<open>None\<close> when the loop never ends.
\<close>

definition loop_continues :: "error + loop_state \<Rightarrow> bool" where
  "loop_continues r = (case r of Inl e \<Rightarrow> False | Inr st \<Rightarrow> loop_cond st)"

definition loop_step ::
  "(real list \<Rightarrow> npfloat \<Rightarrow> npfloat list) \<Rightarrow> real \<Rightarrow> real list \<Rightarrow> error + loop_state
     \<Rightarrow> error + loop_state" where
  "loop_step upd d_s logit_scores r =
     (case r of Inl e \<Rightarrow> Inl e | Inr st \<Rightarrow> loop_body upd d_s logit_scores st)"

definition loop_init :: "npfloat list \<Rightarrow> error + loop_state" where
  "loop_init scores0 = Inr \<lparr> diff = PInf, counter_update = 0, solo_scores = scores0 \<rparr>"

text \<open>Lines 254, 255 and 259 to 270: the loop for a given \<open>d_s\<close>.\<close>

definition calibrate_loop ::
  "(real list \<Rightarrow> npfloat \<Rightarrow> npfloat list) \<Rightarrow> real \<Rightarrow> npfloat list \<Rightarrow> real list
     \<Rightarrow> (error + loop_state) option" where
  "calibrate_loop upd d_s scores0 logit_scores =
     while_option loop_continues (loop_step upd d_s logit_scores) (loop_init scores0)"

text \<open>
  The state after \<open>k\<close> executions of the loop body, whatever the loop condition says:
  the loop itself passes through these states for as long as it continues.
\<close>

definition loop_passes ::
  "(real list \<Rightarrow> npfloat \<Rightarrow> npfloat list) \<Rightarrow> real \<Rightarrow> npfloat list \<Rightarrow> real list \<Rightarrow> nat
     \<Rightarrow> error + loop_state" where
  "loop_passes upd d_s scores0 logit_scores k =
     ((loop_step upd d_s logit_scores) ^^ k) (loop_init scores0)"

text \<open>
  Lines 254 to 270 as a function of \<^verbatim>\<open>args.doublet_ratio\<close>, with exact arithmetic:
  \<^verbatim>\<open>d_s = (args.doublet_ratio / (args.doublet_ratio + 1))\<close> is a division of Python floats,
  taken here without rounding (float64 rounds the quotient, to \<open>1.0\<close> for a ratio from
  \<open>2^53\<close> on, which \<open>calibrate_loop\<close> covers as \<open>d_s = 1\<close>).
\<close>

definition calibrate :: "real \<Rightarrow> npfloat list \<Rightarrow> real list \<Rightarrow> (error + loop_state) option" where
  "calibrate doublet_ratio scores0 logit_scores =
     (case py_div doublet_ratio (doublet_ratio + 1) of
        Inl e \<Rightarrow> Some (Inl e)
      | Inr d_s \<Rightarrow> calibrate_loop update_scores d_s scores0 logit_scores)"

definition after_iterations :: "real \<Rightarrow> npfloat list \<Rightarrow> real list \<Rightarrow> nat \<Rightarrow> error + loop_state" where
  "after_iterations doublet_ratio scores0 logit_scores k =
     (case py_div doublet_ratio (doublet_ratio + 1) of
        Inl e \<Rightarrow> Inl e
      | Inr d_s \<Rightarrow> loop_passes update_scores d_s scores0 logit_scores k)"

text \<open>A score that is a number of the closed unit interval.\<close>

fun in_unit_interval :: "npfloat \<Rightarrow> bool" where
  "in_unit_interval (Fin a) = (0 \<le> a \<and> a \<le> 1)"
| "in_unit_interval _ = False"

text \<open>A score that is a number strictly between 0 and 1.\<close>

fun strictly_inside :: "npfloat \<Rightarrow> bool" where
  "strictly_inside (Fin a) = (0 < a \<and> a < 1)"
| "strictly_inside _ = False"

text \<open>
  Lines 256 and 257: \<^verbatim>\<open>solo_scores = doublet_score[:num_cells]\<close> and
  \<^verbatim>\<open>logit_scores = logit_doublet_score[:num_cells]\<close>, where \<^verbatim>\<open>num_cells\<close> is the number
  of real cells.
\<close>

definition initial_solo_scores :: "(real \<times> real) list \<Rightarrow> nat \<Rightarrow> npfloat list" where
  "initial_solo_scores logit_predictions num_cells =
     take num_cells (doublet_score logit_predictions)"

definition sliced_logit_scores :: "(real \<times> real) list \<Rightarrow> nat \<Rightarrow> real list" where
  "sliced_logit_scores logit_predictions num_cells =
     take num_cells (logit_doublet_score logit_predictions)"

text \<open>Lines 254 to 270 on the arrays of \<^verbatim>\<open>main\<close>.\<close>

definition solo_calibrate ::
  "(real \<times> real) list \<Rightarrow> nat \<Rightarrow> real \<Rightarrow> (error + loop_state) option" where
  "solo_calibrate logit_predictions num_cells doublet_ratio =
     calibrate doublet_ratio
       (initial_solo_scores logit_predictions num_cells)
       (sliced_logit_scores logit_predictions num_cells)"

subsection \<open>Threshold selection (lines 277 to 288)\<close>

text \<open>
  numpy sorts and partitions in the order of \<open>np_key\<close>: \<open>-inf\<close>, the finite values,
  \<open>+inf\<close>, \<open>nan\<close> (\<open>nan\<close> goes last).
\<close>

text \<open>
  \<^verbatim>\<open>np.argpartition(a, kth)\<close> is numpy's, not this repository's: the selection takes it
  as the parameter \<open>part\<close>. Its documented result for \<open>0 \<le> kth < len(a)\<close> is a
  permutation \<open>idx\<close> of the indices of \<open>a\<close> such that \<open>a[idx[kth]]\<close> is in its sorted
  position, no value before it is greater and no value behind it is smaller. numpy
  raises \<open>ValueError\<close> when \<open>kth\<close> is out of bounds, and counts a negative \<open>kth\<close> from
  the end.
\<close>

definition is_argpartition :: "npfloat list \<Rightarrow> nat \<Rightarrow> nat list \<Rightarrow> bool" where
  "is_argpartition a kth idx \<longleftrightarrow>
     distinct idx \<and> set idx = {0..<length a} \<and>
     (\<forall>i \<in> set (take kth idx). np_key (a ! i) \<le> np_key (a ! (idx ! kth))) \<and>
     (\<forall>i \<in> set (drop kth idx). np_key (a ! (idx ! kth)) \<le> np_key (a ! i))"

definition np_argpartition ::
  "(npfloat list \<Rightarrow> nat \<Rightarrow> nat list) \<Rightarrow> npfloat list \<Rightarrow> int \<Rightarrow> error + nat list" where
  "np_argpartition part a kth =
     (let n = int (length a) in
      if kth < - n \<or> n \<le> kth then Inl ValueError
      else Inr (part a (nat (if kth < 0 then kth + n else kth))))"

text \<open>A full stable sort of the indices is one admissible \<open>part\<close>.\<close>

definition argsort_partition :: "npfloat list \<Rightarrow> nat \<Rightarrow> nat list" where
  "argsort_partition a kth = sort_key (\<lambda>i. np_key (a ! i)) [0..<length a]"

text \<open>\<^verbatim>\<open>a[idx]\<close> with an index array: \<open>IndexError\<close> on an index out of bounds.\<close>

definition fancy_index :: "npfloat list \<Rightarrow> nat list \<Rightarrow> error + npfloat list" where
  "fancy_index a idx =
     (if \<forall>i \<in> set idx. i < length a then Inr (map (\<lambda>i. a ! i) idx) else Inl IndexError)"

text \<open>\<^verbatim>\<open>np.max\<close>: \<open>nan\<close> as soon as one entry is \<open>nan\<close>; \<open>ValueError\<close> on an empty array.\<close>

definition np_maximum :: "npfloat \<Rightarrow> npfloat \<Rightarrow> npfloat" where
  "np_maximum a b = (if a = NaN \<or> b = NaN then NaN else if fgt a b then a else b)"

definition np_max :: "npfloat list \<Rightarrow> error + npfloat" where
  "np_max xs = (case xs of [] \<Rightarrow> Inl ValueError | x # ys \<Rightarrow> Inr (foldl np_maximum x ys))"

text \<open>
  Lines 284 and 285:
  \<^verbatim>\<open>idx = np.argpartition(solo_scores, k); threshold = np.max(solo_scores[idx[:k]])\<close>,
  for \<open>k > 0\<close>.
\<close>

definition doublet_threshold ::
  "(npfloat list \<Rightarrow> nat \<Rightarrow> nat list) \<Rightarrow> npfloat list \<Rightarrow> int \<Rightarrow> error + npfloat" where
  "doublet_threshold part scores k =
     (case np_argpartition part scores k of
        Inl e \<Rightarrow> Inl e
      | Inr idx \<Rightarrow>
          (case fancy_index scores (take (nat k) idx) of
             Inl e \<Rightarrow> Inl e
           | Inr smallest \<Rightarrow> np_max smallest))"

text \<open>
  The \<open>k\<close>-th smallest score, as the specification words the threshold (the \<open>k\<close>-th order
  statistic): entry \<open>k - 1\<close> of the scores sorted in numpy's order.
\<close>

definition order_statistic :: "nat \<Rightarrow> npfloat list \<Rightarrow> npfloat" where
  "order_statistic k scores = sort_key np_key scores ! (k - 1)"

text \<open>
  Lines 277 to 288, the value of \<^verbatim>\<open>is_solo_doublet\<close>. The quotient of line 279 is a
  true division of Python ints: it raises on an empty score array and on a quotient
  too large for a float; the warning it guards is only printed. \<^verbatim>\<open>assert k > 0\<close> raises
  \<open>AssertionError\<close>.
\<close>

definition select_threshold ::
  "(npfloat list \<Rightarrow> nat \<Rightarrow> nat list) \<Rightarrow> npfloat list \<Rightarrow> int option \<Rightarrow> error + bool list" where
  "select_threshold part scores expected_number_of_doublets =
     (case expected_number_of_doublets of
        None \<Rightarrow> Inr (map (\<lambda>s. fgt s (Fin (1 / 2))) scores)
      | Some e \<Rightarrow>
          (let k = int (length scores) - e in
           case py_int_truediv e (int (length scores)) of
             Inl err \<Rightarrow> Inl err
           | Inr majority \<Rightarrow>
               if \<not> 0 < k then Inl AssertionError
               else (case doublet_threshold part scores k of
                       Inl err \<Rightarrow> Inl err
                     | Inr threshold \<Rightarrow> Inr (map (\<lambda>s. fgt s threshold) scores))))"

subsection \<open>From the logits to the saved calls (lines 237 to 293)\<close>

record saved_calls =
  is_solo_doublet :: "bool list"
  is_doublet_npy :: "bool list"
  is_doublet_sim_npy :: "bool list"

text \<open>
  The calls and the two slices saved at lines 290 and 293,
  \<^verbatim>\<open>is_solo_doublet[:num_cells]\<close> and \<^verbatim>\<open>is_solo_doublet[num_cells:]\<close>. The result is
  \<open>None\<close> when the calibration loop never ends, \<open>Inl\<close> when an exception is raised.
\<close>

definition solo_calls ::
  "(npfloat list \<Rightarrow> nat \<Rightarrow> nat list) \<Rightarrow> (real \<times> real) list \<Rightarrow> nat \<Rightarrow> real \<Rightarrow> int option
     \<Rightarrow> (error + saved_calls) option" where
  "solo_calls part logit_predictions num_cells doublet_ratio expected_number_of_doublets =
     (case solo_calibrate logit_predictions num_cells doublet_ratio of
        None \<Rightarrow> None
      | Some (Inl e) \<Rightarrow> Some (Inl e)
      | Some (Inr st) \<Rightarrow>
          (case select_threshold part (solo_scores st) expected_number_of_doublets of
             Inl e \<Rightarrow> Some (Inl e)
           | Inr calls \<Rightarrow>
               Some (Inr \<lparr> is_solo_doublet = calls,
                           is_doublet_npy = take num_cells calls,
                           is_doublet_sim_npy = drop num_cells calls \<rparr>)))"

section \<open>Properties of the numeric operations\<close>

lemma foldl_fadd_Fin: "foldl fadd (Fin a) (map Fin xs) = Fin (a + sum_list xs)"
  by (induction xs arbitrary: a) (simp_all add: add.assoc)

lemma np_sum_Fin: "np_sum (map Fin xs) = Fin (sum_list xs)"
  by (simp add: np_sum_def foldl_fadd_Fin)

lemma np_mean_Fin: "xs \<noteq> [] \<Longrightarrow> np_mean (map Fin xs) = Fin (sum_list xs / real (length xs))"
  by (simp add: np_mean_def np_sum_Fin)

lemma np_mean_Nil: "np_mean [] = NaN"
  by (simp add: np_mean_def np_sum_def)

lemma unit_scores_map_Fin:
  "\<forall>s \<in> set ss. in_unit_interval s \<Longrightarrow> \<exists>xs. ss = map Fin xs \<and> (\<forall>x \<in> set xs. 0 \<le> x \<and> x \<le> 1)"
proof (induction ss)
  case Nil
  then show ?case by simp
next
  case (Cons s ss)
  then obtain xs where xs: "ss = map Fin xs" "\<forall>x \<in> set xs. 0 \<le> x \<and> x \<le> 1" by auto
  from Cons.prems obtain x where "s = Fin x" "0 \<le> x" "x \<le> 1"
    by (cases s) auto
  with xs have "s # ss = map Fin (x # xs) \<and> (\<forall>y \<in> set (x # xs). 0 \<le> y \<and> y \<le> 1)" by simp
  then show ?case by (rule exI [of _ "x # xs"])
qed

lemma sum_list_bounds:
  fixes xs :: "real list"
  assumes "\<forall>x \<in> set xs. 0 \<le> x \<and> x \<le> 1"
  shows "0 \<le> sum_list xs \<and> sum_list xs \<le> real (length xs)"
  using assms by (induction xs) auto

lemma np_mean_unit:
  assumes "ss \<noteq> []" "\<forall>s \<in> set ss. in_unit_interval s"
  shows "\<exists>m. np_mean ss = Fin m \<and> 0 \<le> m \<and> m \<le> 1"
proof -
  from unit_scores_map_Fin [OF assms(2)] obtain xs
    where xs: "ss = map Fin xs" "\<forall>x \<in> set xs. 0 \<le> x \<and> x \<le> 1" by blast
  with assms(1) have ne: "xs \<noteq> []" by auto
  have b: "0 \<le> sum_list xs \<and> sum_list xs \<le> real (length xs)"
    using sum_list_bounds [OF xs(2)] .
  have l: "0 < real (length xs)" using ne by simp
  have "0 \<le> sum_list xs / real (length xs) \<and> sum_list xs / real (length xs) \<le> 1"
    using b l by (simp add: divide_le_eq)
  then show ?thesis using np_mean_Fin [OF ne] xs(1) by auto
qed

section \<open>One pass of the calibration loop\<close>

lemma py_div_ratio: "r + 1 \<noteq> 0 \<Longrightarrow> py_div r (r + 1) = Inr (r / (r + 1))"
  by (simp add: py_div_def)

lemma odds_of_ratio:
  fixes r :: real
  assumes "r + 1 \<noteq> 0"
  shows "1 - r / (r + 1) \<noteq> 0" and "r / (r + 1) / (1 - r / (r + 1)) = r"
proof -
  have e: "1 - r / (r + 1) = 1 / (r + 1)"
    using assms by (simp add: field_simps)
  show "1 - r / (r + 1) \<noteq> 0" using assms by (simp add: e)
  show "r / (r + 1) / (1 - r / (r + 1)) = r" using assms by (simp add: e)
qed

lemma log_odds_update_ratio:
  assumes "r + 1 \<noteq> 0"
  shows "log_odds_update (r / (r + 1)) d_o =
           Inr (fsub (flog (fdiv d_o (fsub (Fin 1) d_o))) (flog (Fin r)))"
  using odds_of_ratio [OF assms] by (simp add: log_odds_update_def py_div_def)

lemma loop_body_ratio:
  assumes "r + 1 \<noteq> 0"
  shows "\<exists>c. log_odds_update (r / (r + 1)) (np_mean (solo_scores st)) = Inr c \<and>
           loop_body update_scores (r / (r + 1)) ls st =
             Inr \<lparr> diff = fabs (fsub (np_mean (solo_scores st)) (np_mean (update_scores ls c))),
                   counter_update = counter_update st + 1,
                   solo_scores = update_scores ls c \<rparr>"
  by (simp add: loop_body_def Let_def log_odds_update_ratio [OF assms])

lemma update_scores_Fin:
  "update_scores ls (Fin x) = map (\<lambda>l. Fin (1 / (1 + exp (- (l + x))))) ls"
proof -
  have "1 + exp (- (l + x)) \<noteq> 0" for l
    using exp_gt_zero [of "- (l + x)"] by linarith
  then show ?thesis by (simp add: update_scores_def)
qed

lemma update_scores_NInf: "update_scores ls NInf = map (\<lambda>l. Fin 0) ls"
  by (simp add: update_scores_def)

lemma update_scores_PInf: "update_scores ls PInf = map (\<lambda>l. Fin 1) ls"
  by (simp add: update_scores_def)

lemma update_scores_Nil: "update_scores [] c = []"
  by (simp add: update_scores_def)

lemma length_update_scores: "length (update_scores ls c) = length ls"
  by (simp add: update_scores_def)

lemma sigmoid_bounds: "0 < 1 / (1 + exp (x::real)) \<and> 1 / (1 + exp x) < 1"
proof -
  have p: "0 < 1 + exp x" and q: "1 < 1 + exp x"
    using exp_gt_zero [of x] by linarith+
  have "1 / (1 + exp x) < 1" using p q by (simp only: divide_less_eq_1_pos)
  moreover have "0 < 1 / (1 + exp x)" using p by (simp only: zero_less_divide_1_iff)
  ultimately show ?thesis by blast
qed

lemma update_scores_unit:
  assumes "c \<noteq> NaN"
  shows "\<forall>s \<in> set (update_scores ls c). in_unit_interval s"
proof (cases c)
  case (Fin x)
  show ?thesis
    unfolding Fin update_scores_Fin
    using sigmoid_bounds by (auto simp: less_imp_le)
qed (use assms in \<open>simp_all add: update_scores_NInf update_scores_PInf\<close>)

lemma bias_not_NaN:
  assumes "0 < r" "0 \<le> m" "m \<le> 1"
  shows "fsub (flog (fdiv (Fin m) (fsub (Fin 1) (Fin m)))) (flog (Fin r)) \<noteq> NaN"
proof -
  consider "m = 0" | "m = 1" | "0 < m" "m < 1" using assms by linarith
  then show ?thesis
  proof cases
    case 1
    then show ?thesis using assms(1) by (simp add: fsub_def)
  next
    case 2
    then show ?thesis using assms(1) by (simp add: fsub_def)
  next
    case 3
    then have "0 < m / (1 - m)" by simp
    then show ?thesis using assms(1) 3 by (simp add: fsub_def)
  qed
qed

section \<open>The passes of the calibration loop\<close>

subsection \<open>For a given value of line 258 and evaluation of line 266\<close>


lemma loop_body_raises:
  "loop_body upd 1 ls st = Inl ZeroDivisionError"
  by (simp add: loop_body_def Let_def log_odds_update_def py_div_def)

lemma loop_passes_0: "loop_passes upd d_s s0 ls 0 = loop_init s0"
  by (simp add: loop_passes_def)

lemma loop_passes_Suc:
  "loop_passes upd d_s s0 ls (Suc k) = loop_step upd d_s ls (loop_passes upd d_s s0 ls k)"
  by (simp add: loop_passes_def)



lemma loop_passes_scores:
  assumes "loop_passes upd d_s s0 ls (Suc k) = Inr st"
  shows "\<exists>c. solo_scores st = upd ls c"
proof -
  from assms obtain prev where "loop_body upd d_s ls prev = Inr st"
    by (auto simp: loop_passes_Suc loop_step_def split: sum.splits)
  then show ?thesis
    by (auto simp: loop_body_def Let_def split: sum.splits)
qed

lemma calibrate_loop_Some:
  assumes "calibrate_loop upd d_s s0 ls = Some res"
  shows "\<exists>k. res = loop_passes upd d_s s0 ls k \<and> \<not> loop_continues res \<and>
           (\<forall>i<k. loop_continues (loop_passes upd d_s s0 ls i))"
proof -
  let ?b = loop_continues and ?c = "loop_step upd d_s ls" and ?s = "loop_init s0"
  have w: "while_option ?b ?c ?s = Some res"
    using assms by (simp add: calibrate_loop_def)
  from w have ex: "\<exists>k. \<not> ?b ((?c ^^ k) ?s)"
    by (auto simp: while_option_def split: if_splits)
  define k where "k = (LEAST k. \<not> ?b ((?c ^^ k) ?s))"
  have res: "res = (?c ^^ k) ?s"
    using w ex by (simp add: while_option_def k_def)
  have stop: "\<not> ?b ((?c ^^ k) ?s)"
    unfolding k_def using ex by (rule LeastI_ex)
  have before: "?b ((?c ^^ i) ?s)" if "i < k" for i
    using not_less_Least [of i "\<lambda>k. \<not> ?b ((?c ^^ k) ?s)"] that by (auto simp: k_def)
  show ?thesis
    by (intro exI [of _ k]) (simp add: loop_passes_def res stop before)
qed

lemma calibrate_loop_stops_at:
  assumes "\<forall>i<k. loop_continues (loop_passes upd d_s s0 ls i)"
    and "\<not> loop_continues (loop_passes upd d_s s0 ls k)"
  shows "calibrate_loop upd d_s s0 ls = Some (loop_passes upd d_s s0 ls k)"
proof -
  let ?b = loop_continues and ?c = "loop_step upd d_s ls" and ?s = "loop_init s0"
  have least: "(LEAST j. \<not> ?b ((?c ^^ j) ?s)) = k"
  proof (rule Least_equality)
    show "\<not> ?b ((?c ^^ k) ?s)" using assms(2) by (simp add: loop_passes_def)
  next
    fix j assume "\<not> ?b ((?c ^^ j) ?s)"
    then show "k \<le> j" using assms(1) by (auto simp: loop_passes_def not_less [symmetric])
  qed
  have ex: "\<exists>j. \<not> ?b ((?c ^^ j) ?s)" using assms(2) by (auto simp: loop_passes_def)
  have "while_option ?b ?c ?s = Some ((?c ^^ k) ?s)"
    using ex by (simp add: while_option_def least)
  then show ?thesis by (simp add: calibrate_loop_def loop_passes_def)
qed

subsection \<open>With exact arithmetic, as a function of the doublet ratio\<close>

lemma calibrate_ratio:
  "r + 1 \<noteq> 0 \<Longrightarrow> calibrate r s0 ls = calibrate_loop update_scores (r / (r + 1)) s0 ls"
  by (simp add: calibrate_def py_div_def)


lemma after_iterations_0:
  "r + 1 \<noteq> 0 \<Longrightarrow> after_iterations r s0 ls 0 = loop_init s0"
  by (simp add: after_iterations_def loop_passes_def py_div_def)

lemma after_iterations_Suc:
  "r + 1 \<noteq> 0 \<Longrightarrow>
   after_iterations r s0 ls (Suc k) = loop_step update_scores (r / (r + 1)) ls (after_iterations r s0 ls k)"
  by (simp add: after_iterations_def loop_passes_def py_div_def)

lemma after_iterations_counter:
  assumes "r + 1 \<noteq> 0"
  shows "\<exists>st. after_iterations r s0 ls k = Inr st \<and> counter_update st = k"
proof (induction k)
  case 0
  show ?case by (simp add: after_iterations_0 [OF assms] loop_init_def)
next
  case (Suc k)
  then obtain st where st: "after_iterations r s0 ls k = Inr st" "counter_update st = k"
    by blast
  from loop_body_ratio [OF assms, of st ls] obtain st'
    where "loop_body update_scores (r / (r + 1)) ls st = Inr st'" "counter_update st' = counter_update st + 1"
    by auto
  then show ?case
    by (simp add: after_iterations_Suc [OF assms] st loop_step_def)
qed

lemma after_iterations_Suc_state:
  assumes "r + 1 \<noteq> 0" and "after_iterations r s0 ls k = Inr st"
  shows "\<exists>c. log_odds_update (r / (r + 1)) (np_mean (solo_scores st)) = Inr c \<and>
           after_iterations r s0 ls (Suc k) =
             Inr \<lparr> diff = fabs (fsub (np_mean (solo_scores st)) (np_mean (update_scores ls c))),
                   counter_update = counter_update st + 1,
                   solo_scores = update_scores ls c \<rparr>"
  using loop_body_ratio [OF assms(1), of st ls]
  by (simp add: after_iterations_Suc [OF assms(1)] assms(2) loop_step_def)

lemma calibrate_Some:
  assumes "calibrate r s0 ls = Some res"
  shows "\<exists>k. res = after_iterations r s0 ls k \<and> \<not> loop_continues res \<and>
           (\<forall>i<k. loop_continues (after_iterations r s0 ls i))"
proof (cases "r + 1 = 0")
  case True
  then have "res = Inl ZeroDivisionError" "after_iterations r s0 ls 0 = Inl ZeroDivisionError"
    using assms by (simp_all add: calibrate_def calibrate_loop_def after_iterations_def loop_passes_def py_div_def)
  then show ?thesis by (intro exI [of _ 0]) (simp add: loop_continues_def)
next
  case False
  let ?b = loop_continues and ?c = "loop_step update_scores (r / (r + 1)) ls" and ?s = "loop_init s0"
  have w: "while_option ?b ?c ?s = Some res"
    using assms False by (simp add: calibrate_def calibrate_loop_def py_div_def)
  have it: "after_iterations r s0 ls k = (?c ^^ k) ?s" for k
    using False by (simp add: after_iterations_def loop_passes_def py_div_def)
  from w have ex: "\<exists>k. \<not> ?b ((?c ^^ k) ?s)"
    by (auto simp: while_option_def split: if_splits)
  define k where "k = (LEAST k. \<not> ?b ((?c ^^ k) ?s))"
  have res: "res = (?c ^^ k) ?s"
    using w ex by (simp add: while_option_def k_def)
  have stop: "\<not> ?b ((?c ^^ k) ?s)"
    unfolding k_def using ex by (rule LeastI_ex)
  have before: "?b ((?c ^^ i) ?s)" if "i < k" for i
    using not_less_Least [of i "\<lambda>k. \<not> ?b ((?c ^^ k) ?s)"] that by (auto simp: k_def)
  show ?thesis
    by (intro exI [of _ k]) (simp add: it res stop before)
qed

lemma after_iterations_unit:
  assumes r: "0 < r" and len: "length s0 = length ls"
    and unit: "\<forall>s \<in> set s0. in_unit_interval s"
  shows "\<exists>st. after_iterations r s0 ls k = Inr st \<and> length (solo_scores st) = length ls \<and>
           (\<forall>s \<in> set (solo_scores st). in_unit_interval s)"
proof (induction k)
  case 0
  from r have r1: "r + 1 \<noteq> 0" by simp
  show ?case using len unit by (simp add: after_iterations_0 [OF r1] loop_init_def)
next
  case (Suc k)
  from r have r1: "r + 1 \<noteq> 0" by simp
  from Suc obtain st where st: "after_iterations r s0 ls k = Inr st"
    "length (solo_scores st) = length ls" "\<forall>s \<in> set (solo_scores st). in_unit_interval s"
    by blast
  from after_iterations_Suc_state [OF r1 st(1)] obtain c where
    c: "log_odds_update (r / (r + 1)) (np_mean (solo_scores st)) = Inr c"
    and nxt: "after_iterations r s0 ls (Suc k) =
       Inr \<lparr> diff = fabs (fsub (np_mean (solo_scores st)) (np_mean (update_scores ls c))),
             counter_update = counter_update st + 1, solo_scores = update_scores ls c \<rparr>"
    by blast
  have "\<forall>s \<in> set (update_scores ls c). in_unit_interval s"
  proof (cases "ls = []")
    case True
    then show ?thesis by (simp add: update_scores_Nil)
  next
    case False
    with st(2) have "solo_scores st \<noteq> []" by auto
    from np_mean_unit [OF this st(3)] obtain m
      where m: "np_mean (solo_scores st) = Fin m" "0 \<le> m" "m \<le> 1" by blast
    have "c \<noteq> NaN"
      using c bias_not_NaN [OF r m(2,3)] by (simp add: log_odds_update_ratio [OF r1] m(1))
    then show ?thesis by (rule update_scores_unit)
  qed
  then show ?case by (simp add: nxt length_update_scores)
qed

lemma calibrate_stops_at:
  assumes "r + 1 \<noteq> 0"
    and "\<forall>i<k. loop_continues (after_iterations r s0 ls i)"
    and "\<not> loop_continues (after_iterations r s0 ls k)"
  shows "calibrate r s0 ls = Some (after_iterations r s0 ls k)"
proof -
  let ?b = loop_continues and ?c = "loop_step update_scores (r / (r + 1)) ls" and ?s = "loop_init s0"
  have it: "after_iterations r s0 ls k = (?c ^^ k) ?s" for k
    using assms(1) by (simp add: after_iterations_def loop_passes_def py_div_def)
  have least: "(LEAST j. \<not> ?b ((?c ^^ j) ?s)) = k"
  proof (rule Least_equality)
    show "\<not> ?b ((?c ^^ k) ?s)" using assms(3) by (simp add: it)
  next
    fix j assume "\<not> ?b ((?c ^^ j) ?s)"
    then show "k \<le> j" using assms(2) by (auto simp: it not_less [symmetric])
  qed
  have ex: "\<exists>j. \<not> ?b ((?c ^^ j) ?s)" using assms(3) by (auto simp: it)
  have "while_option ?b ?c ?s = Some ((?c ^^ k) ?s)"
    using ex by (simp add: while_option_def least)
  then show ?thesis using assms(1) by (simp add: calibrate_def calibrate_loop_def py_div_def it)
qed

subsection \<open>A run on one cell: logit 0 and doublet ratio 2\<close>

lemma one_cell_body:
  assumes "0 < s" "s < 1"
  shows "loop_body update_scores (2 / (2 + 1)) [0] \<lparr> diff = d, counter_update = n, solo_scores = [Fin s] \<rparr> =
           Inr \<lparr> diff = Fin \<bar>s - s / (2 - s)\<bar>, counter_update = n + 1,
                 solo_scores = [Fin (s / (2 - s))] \<rparr>"
proof -
  have m: "np_mean [Fin s] = Fin s" by (simp add: np_mean_def np_sum_def)
  have q: "0 < s / (1 - s)" using assms by simp
  have c: "log_odds_update (2 / (2 + 1)) (Fin s) = Inr (Fin (ln (s / (1 - s)) - ln 2))"
    using assms q by (simp add: log_odds_update_def py_div_def fsub_def)
  have e: "exp (- (ln (s / (1 - s)) - ln 2)) = 2 * (1 - s) / s"
    using q assms by (simp add: exp_minus exp_diff field_simps)
  have v: "1 / (1 + 2 * (1 - s) / s) = s / (2 - s)"
    using assms by (simp add: field_simps)
  have u: "update_scores [0] (Fin (ln (s / (1 - s)) - ln 2)) = [Fin (s / (2 - s))]"
    by (simp only: update_scores_Fin list.map add_0 e v)
  have m': "np_mean [Fin (s / (2 - s))] = Fin (s / (2 - s))"
    by (simp add: np_mean_def np_sum_def)
  show ?thesis
    by (simp only: loop_body_def Let_def loop_state.simps m c u m' sum.case fsub_def
        fneg.simps fadd.simps fabs.simps) simp
qed

lemma run_one_cell:
  "after_iterations 2 [Fin (1 / 2)] [0] k =
     Inr \<lparr> diff = (if k = 0 then PInf else Fin (1 / (2 ^ (k - 1) + 1) - 1 / (2 ^ k + 1))),
           counter_update = k, solo_scores = [Fin (1 / (2 ^ k + 1))] \<rparr>"
proof (induction k)
  case 0
  show ?case by (simp add: after_iterations_def loop_passes_def py_div_def loop_init_def)
next
  case (Suc k)
  have r1: "(2::real) + 1 \<noteq> 0" by simp
  let ?s = "1 / (2 ^ k + 1) :: real"
  define a where "a = (2::real) ^ k"
  have a: "0 < a" by (simp add: a_def)
  have "0 < 1 / (a + 1)" "1 / (a + 1) < 1"
    using a by simp_all
  then have p: "0 < ?s" "?s < 1" by (simp_all only: a_def)
  have "(1 / (a + 1)) / (2 - 1 / (a + 1)) = 1 / (2 * a + 1)"
    using a by (simp add: field_simps)
  then have nxt: "?s / (2 - ?s) = 1 / (2 ^ Suc k + 1)" by (simp add: a_def)
  have "1 / (2 * a + 1) \<le> 1 / (a + 1)"
    using a by (intro frac_le) simp_all
  then have mono: "1 / (2 ^ Suc k + 1) \<le> ?s" by (simp add: a_def)
  have d: "\<bar>?s - 1 / (2 ^ Suc k + 1)\<bar> = ?s - 1 / (2 ^ Suc k + 1)"
    using mono by simp
  have "after_iterations 2 [Fin (1 / 2)] [0] (Suc k) =
     Inr \<lparr> diff = Fin (?s - 1 / (2 ^ Suc k + 1)), counter_update = k + 1,
           solo_scores = [Fin (1 / (2 ^ Suc k + 1))] \<rparr>"
    by (simp only: after_iterations_Suc [OF r1] Suc loop_step_def sum.case
        one_cell_body [OF p] nxt d)
  then show ?case by simp
qed

lemma one_cell_result:
  "calibrate 2 [Fin (1 / 2)] [0] =
     Some (Inr \<lparr> diff = Fin (64 / 8385), counter_update = 7, solo_scores = [Fin (1 / 129)] \<rparr>)"
proof -
  have r1: "(2::real) + 1 \<noteq> 0" by simp
  have before: "\<forall>i<7. loop_continues (after_iterations 2 [Fin (1 / 2)] [0] i)"
  proof (intro allI impI)
    fix i :: nat assume "i < 7"
    then consider "i < 5" | "i = 5" | "i = 6" by linarith
    then show "loop_continues (after_iterations 2 [Fin (1 / 2)] [0] i)"
      by cases (simp_all add: run_one_cell loop_continues_def loop_cond_def)
  qed
  have stop: "\<not> loop_continues (after_iterations 2 [Fin (1 / 2)] [0] 7)"
    by (simp add: run_one_cell loop_continues_def loop_cond_def)
  have "after_iterations 2 [Fin (1 / 2)] [0] 7 =
     Inr \<lparr> diff = Fin (64 / 8385), counter_update = 7, solo_scores = [Fin (1 / 129)] \<rparr>"
    by (simp add: run_one_cell)
  then show ?thesis using calibrate_stops_at [OF r1 before stop] by simp
qed

subsection \<open>A run on two cells whose mean score starts at the target prevalence\<close>

lemma two_cell_body:
  assumes "np_mean (solo_scores st) = Fin (1 / 2)"
  shows "loop_body update_scores (1 / 2) [ln 2, - ln 2] st =
           Inr \<lparr> diff = Fin 0, counter_update = counter_update st + 1,
                 solo_scores = [Fin (2 / 3), Fin (1 / 3)] \<rparr>"
proof -
  have c: "log_odds_update (1 / 2) (Fin (1 / 2)) = Inr (Fin 0)"
    by (simp add: log_odds_update_def py_div_def fsub_def)
  have u: "update_scores [ln 2, - ln 2] (Fin 0) = [Fin (2 / 3), Fin (1 / 3)]"
    by (simp add: update_scores_Fin exp_minus)
  have m': "np_mean [Fin (2 / 3), Fin (1 / 3)] = Fin (1 / 2)"
    by (simp add: np_mean_def np_sum_def)
  show ?thesis
    by (simp add: loop_body_def Let_def assms c u m' fsub_def)
qed

lemma run_two_cells:
  "after_iterations 1 [Fin (1 / 3), Fin (2 / 3)] [ln 2, - ln 2] (Suc k) =
     Inr \<lparr> diff = Fin 0, counter_update = Suc k, solo_scores = [Fin (2 / 3), Fin (1 / 3)] \<rparr>"
proof (induction k)
  case 0
  have "np_mean [Fin (1 / 3), Fin (2 / 3)] = Fin (1 / 2)"
    by (simp add: np_mean_def np_sum_def)
  then show ?case
    by (simp add: after_iterations_def loop_passes_def py_div_def loop_init_def loop_step_def two_cell_body)
next
  case (Suc k)
  have r1: "(1::real) + 1 \<noteq> 0" by simp
  have "np_mean [Fin (2 / 3), Fin (1 / 3)] = Fin (1 / 2)"
    by (simp add: np_mean_def np_sum_def)
  then show ?case
    by (simp add: after_iterations_Suc [OF r1, of _ _ "Suc k"] Suc loop_step_def two_cell_body)
qed

lemma two_cell_result:
  "calibrate 1 [Fin (1 / 3), Fin (2 / 3)] [ln 2, - ln 2] =
     Some (Inr \<lparr> diff = Fin 0, counter_update = 5, solo_scores = [Fin (2 / 3), Fin (1 / 3)] \<rparr>)"
proof -
  have r1: "(1::real) + 1 \<noteq> 0" by simp
  let ?a = "after_iterations 1 [Fin (1 / 3), Fin (2 / 3)] [ln 2, - ln 2]"
  have before: "\<forall>i<5. loop_continues (?a i)"
  proof (intro allI impI)
    fix i :: nat assume i: "i < 5"
    from after_iterations_counter [OF r1, of "[Fin (1 / 3), Fin (2 / 3)]" "[ln 2, - ln 2]" i]
    obtain st where "?a i = Inr st" "counter_update st = i" by blast
    then show "loop_continues (?a i)" using i by (simp add: loop_continues_def loop_cond_def)
  qed
  have five: "?a 5 = Inr \<lparr> diff = Fin 0, counter_update = 5,
                            solo_scores = [Fin (2 / 3), Fin (1 / 3)] \<rparr>"
    using run_two_cells [of 4] by simp
  have stop: "\<not> loop_continues (?a 5)"
    by (simp add: five loop_continues_def loop_cond_def)
  show ?thesis using calibrate_stops_at [OF r1 before stop] by (simp add: five)
qed

lemma pipeline_one_cell:
  "initial_solo_scores [(0, 0)] 1 = [Fin (1 / 2)]"
  "sliced_logit_scores [(0, 0)] 1 = [0]"
  by (simp_all add: initial_solo_scores_def sliced_logit_scores_def doublet_score_def
      softmax_def logit_doublet_score_def)

section \<open>Scores strictly between 0 and 1\<close>

lemma bias_finite:
  assumes "0 < r" "0 < m" "m < 1"
  shows "fsub (flog (fdiv (Fin m) (fsub (Fin 1) (Fin m)))) (flog (Fin r)) =
           Fin (ln (m / (1 - m)) - ln r)"
proof -
  have "0 < m / (1 - m)" using assms by simp
  then show ?thesis using assms by (simp add: fsub_def)
qed

lemma doublet_score_inside: "\<forall>s \<in> set (doublet_score lp). strictly_inside s"
proof -
  have "0 < exp a / (exp a + exp b) \<and> exp a / (exp a + exp b) < 1" for a b :: real
    using exp_gt_zero [of a] exp_gt_zero [of b] by (simp add: add_pos_pos)
  then show ?thesis by (auto simp: doublet_score_def softmax_def)
qed

section \<open>Line 266 in float64\<close>

lemma fgt_irrefl_key: "np_key a \<le> np_key b \<Longrightarrow> \<not> fgt a b"
  by (cases a; cases b) auto

lemma float_update_scores_nth:
  "i < length ls \<Longrightarrow>
   float_update_scores rnd fl_exp ls c ! i =
     rounded rnd (fdiv (Fin 1) (rounded rnd (fadd (Fin 1)
       (np_exp fl_exp (fneg (rounded rnd (fadd (Fin (ls ! i)) c)))))))"
  by (simp add: float_update_scores_def)

lemma shifted_logit_mono:
  assumes "float_rounding rnd" "a \<le> b"
  shows "np_key (rounded rnd (fadd (Fin a) c)) \<le> np_key (rounded rnd (fadd (Fin b) c))"
proof (cases c)
  case (Fin x)
  from assms(2) have "a + x \<le> b + x" by simp
  with assms(1) show ?thesis by (simp add: Fin rounded_def float_rounding_def)
qed (simp_all add: rounded_def)

lemma shifted_logit_NaN:
  assumes "float_rounding rnd"
  shows "rounded rnd (fadd (Fin a) c) = NaN \<longleftrightarrow> c = NaN"
  using assms by (cases c) (simp_all add: rounded_def float_rounding_def)

lemma sigmoid_step_mono:
  assumes r: "float_rounding rnd" and e: "float_exp fl_exp"
    and "t \<noteq> NaN" "t' \<noteq> NaN" "np_key t \<le> np_key t'"
  shows "np_key (rounded rnd (fdiv (Fin 1) (rounded rnd (fadd (Fin 1) (np_exp fl_exp (fneg t))))))
       \<le> np_key (rounded rnd (fdiv (Fin 1) (rounded rnd (fadd (Fin 1) (np_exp fl_exp (fneg t'))))))"
proof -
  have rmono: "np_key (rnd x) \<le> np_key (rnd y)" if "x \<le> y" for x y
    using r that by (simp add: float_rounding_def)
  have rnn: "rnd x \<noteq> NaN" for x using r by (simp add: float_rounding_def)
  have r1: "rnd 1 = Fin 1" using r by (simp add: float_rounding_def)
  have emono: "np_key (fl_exp x) \<le> np_key (fl_exp y)" if "x \<le> y" for x y
    using e that by (simp add: float_exp_def)
  have epos: "fl_exp x \<noteq> NaN \<and> np_key (Fin 0) \<le> np_key (fl_exp x)" for x
    using e by (simp add: float_exp_def)
  \<comment> \<open>the value of \<open>np.exp\<close>: a number that is not negative, or \<open>+inf\<close>\<close>
  define u where "u = np_exp fl_exp (fneg t)"
  define u' where "u' = np_exp fl_exp (fneg t')"
  have shape: "v \<noteq> NaN \<Longrightarrow> (\<exists>y\<ge>0. np_exp fl_exp (fneg v) = Fin y) \<or> np_exp fl_exp (fneg v) = PInf" for v
  proof (cases v)
    case (Fin x)
    from epos [of "- x"] show ?thesis
      by (cases "fl_exp (- x)") (simp_all add: Fin np_exp_def)
  qed (simp_all add: np_exp_def)
  have uu: "np_key u' \<le> np_key u"
  proof (cases t)
    case t: (Fin x)
    show ?thesis
    proof (cases t')
      case t': (Fin x')
      from assms(5) have "- x' \<le> - x" by (simp add: t t')
      from emono [OF this] show ?thesis by (simp add: u_def u'_def t t' np_exp_def)
    next
      case PInf
      with epos [of "- x"] show ?thesis by (simp add: u_def u'_def t np_exp_def)
    qed (use assms in \<open>simp_all add: t\<close>)
  next
    case PInf
    with assms(4,5) have "t' = PInf" by (cases t') simp_all
    with PInf show ?thesis by (simp add: u_def u'_def)
  next
    case NInf
    show ?thesis
    proof (cases t')
      case t': (Fin x')
      from epos [of "- x'"] have "np_key (fl_exp (- x')) \<le> np_key PInf"
        by (cases "fl_exp (- x')") simp_all
      then show ?thesis by (simp add: u_def u'_def NInf t' np_exp_def)
    qed (use assms in \<open>simp_all add: NInf u_def u'_def np_exp_def\<close>)
  qed (use assms in simp)
  \<comment> \<open>the denominator: at least 1, or \<open>+inf\<close>\<close>
  define w where "w = rounded rnd (fadd (Fin 1) u)"
  define w' where "w' = rounded rnd (fadd (Fin 1) u')"
  have den: "(\<exists>z. rounded rnd (fadd (Fin 1) v) = Fin z \<and> 1 \<le> z) \<or> rounded rnd (fadd (Fin 1) v) = PInf"
    if "(\<exists>y\<ge>0. v = Fin y) \<or> v = PInf" for v
  proof -
    from that show ?thesis
    proof
      assume "\<exists>y\<ge>0. v = Fin y"
      then obtain y where y: "0 \<le> y" "v = Fin y" by blast
      from rmono [of 1 "1 + y"] y(1) have "np_key (Fin 1) \<le> np_key (rnd (1 + y))"
        by (simp add: r1)
      then show ?thesis using rnn [of "1 + y"]
        by (cases "rnd (1 + y)") (simp_all add: y(2) rounded_def)
    next
      assume "v = PInf"
      then show ?thesis by (simp add: rounded_def)
    qed
  qed
  have su: "(\<exists>y\<ge>0. u = Fin y) \<or> u = PInf" unfolding u_def by (rule shape [OF assms(3)])
  have su': "(\<exists>y\<ge>0. u' = Fin y) \<or> u' = PInf" unfolding u'_def by (rule shape [OF assms(4)])
  have ww: "np_key w' \<le> np_key w"
  proof -
    from su show ?thesis
    proof
      assume "\<exists>y\<ge>0. u = Fin y"
      then obtain y where y: "u = Fin y" by blast
      from su' show ?thesis
      proof
        assume "\<exists>y'\<ge>0. u' = Fin y'"
        then obtain y' where y': "u' = Fin y'" by blast
        from uu have "1 + y' \<le> 1 + y" by (simp add: y y')
        from rmono [OF this] show ?thesis by (simp add: w_def w'_def y y' rounded_def)
      next
        assume "u' = PInf"
        with uu y show ?thesis by simp
      qed
    next
      assume "u = PInf"
      then have "w = PInf" by (simp add: w_def rounded_def)
      moreover from den [OF su'] have "np_key w' \<le> np_key PInf"
        by (auto simp: w'_def)
      ultimately show ?thesis by simp
    qed
  qed
  have sw: "(\<exists>z. w = Fin z \<and> 1 \<le> z) \<or> w = PInf" unfolding w_def by (rule den [OF su])
  have sw': "(\<exists>z. w' = Fin z \<and> 1 \<le> z) \<or> w' = PInf" unfolding w'_def by (rule den [OF su'])
  have "np_key (rounded rnd (fdiv (Fin 1) w)) \<le> np_key (rounded rnd (fdiv (Fin 1) w'))"
  proof -
    from sw' show ?thesis
    proof
      assume "\<exists>z'. w' = Fin z' \<and> 1 \<le> z'"
      then obtain z' where z': "w' = Fin z'" "1 \<le> z'" by blast
      from sw show ?thesis
      proof
        assume "\<exists>z. w = Fin z \<and> 1 \<le> z"
        then obtain z where z: "w = Fin z" "1 \<le> z" by blast
        from ww have "z' \<le> z" by (simp add: z z')
        with z'(2) have "1 / z \<le> 1 / z'" by (simp add: frac_le)
        from rmono [OF this] show ?thesis using z z' by (simp add: rounded_def)
      next
        assume "w = PInf"
        moreover from z'(2) have "0 \<le> 1 / z'" by simp
        from rmono [OF this] have "np_key (rnd 0) \<le> np_key (rnd (1 / z'))" .
        ultimately show ?thesis using z' by (simp add: rounded_def)
      qed
    next
      assume w': "w' = PInf"
      with ww sw have "w = PInf" by auto
      with w' show ?thesis by simp
    qed
  qed
  then show ?thesis by (simp only: w_def w'_def u_def u'_def)
qed

lemma float_update_scores_order:
  assumes r: "float_rounding rnd" and e: "float_exp fl_exp"
    and i: "i < length ls" and j: "j < length ls" and le: "ls ! j \<le> ls ! i"
  shows "\<not> fgt (float_update_scores rnd fl_exp ls c ! j) (float_update_scores rnd fl_exp ls c ! i)"
proof (cases "c = NaN")
  case True
  then show ?thesis
    by (simp add: float_update_scores_nth [OF j] rounded_def np_exp_def)
next
  case False
  let ?t = "rounded rnd (fadd (Fin (ls ! j)) c)" and ?t' = "rounded rnd (fadd (Fin (ls ! i)) c)"
  have nn: "?t \<noteq> NaN" "?t' \<noteq> NaN"
    using False shifted_logit_NaN [OF r] by simp_all
  have "np_key ?t \<le> np_key ?t'" by (rule shifted_logit_mono [OF r le])
  from sigmoid_step_mono [OF r e nn this]
  have "np_key (float_update_scores rnd fl_exp ls c ! j)
          \<le> np_key (float_update_scores rnd fl_exp ls c ! i)"
    by (simp only: float_update_scores_nth [OF i] float_update_scores_nth [OF j])
  then show ?thesis by (rule fgt_irrefl_key)
qed

lemma float_update_scores_exact:
  "float_update_scores Fin (\<lambda>x. Fin (exp x)) ls c = update_scores ls c"
proof -
  have a: "rounded Fin v = v" for v by (cases v) (simp_all add: rounded_def)
  have b: "np_exp (\<lambda>x. Fin (exp x)) v = fexp v" for v by (cases v) (simp_all add: np_exp_def)
  show ?thesis by (simp add: float_update_scores_def update_scores_def a b)
qed

lemma exact_rounding: "float_rounding Fin"
  by (simp add: float_rounding_def)

lemma exact_exp: "float_exp (\<lambda>x. Fin (exp x))"
  by (simp add: float_exp_def)

lemma floor_rounding: "float_rounding (\<lambda>x. Fin (of_int \<lfloor>x\<rfloor>))"
  by (simp add: float_rounding_def floor_mono)

lemma floor_saturates:
  "float_update_scores (\<lambda>x. Fin (of_int \<lfloor>x\<rfloor>)) (\<lambda>x. Fin (exp x)) [2, 1] (Fin 0) = [Fin 1, Fin 1]"
proof -
  have e: "0 < exp (- x) \<and> exp (- x) < 1" if "0 < x" for x :: real
    using that by simp
  have f: "\<lfloor>1 + exp (- x)\<rfloor> = 1" if "0 < x" for x :: real
    using e [OF that] by (simp add: floor_eq_iff)
  show ?thesis
    using f [of 2] f [of 1] by (simp add: float_update_scores_def rounded_def np_exp_def)
qed

subsection \<open>A run on two cells whose initial scores are 0\<close>

lemma degenerate_body:
  "loop_body update_scores (2 / 3) [0, 1] \<lparr> diff = d, counter_update = n, solo_scores = [Fin 0, Fin 0] \<rparr> =
     Inr \<lparr> diff = Fin 0, counter_update = n + 1, solo_scores = [Fin 0, Fin 0] \<rparr>"
proof -
  have m: "np_mean [Fin 0, Fin 0] = Fin 0" by (simp add: np_mean_def np_sum_def)
  have c: "log_odds_update (2 / 3) (Fin 0) = Inr NInf"
    by (simp add: log_odds_update_def py_div_def fsub_def)
  show ?thesis
    by (simp add: loop_body_def Let_def m c update_scores_NInf fsub_def)
qed

lemma run_degenerate:
  "after_iterations 2 [Fin 0, Fin 0] [0, 1] (Suc k) =
     Inr \<lparr> diff = Fin 0, counter_update = Suc k, solo_scores = [Fin 0, Fin 0] \<rparr>"
proof (induction k)
  case 0
  show ?case
    by (simp add: after_iterations_def loop_passes_def py_div_def loop_init_def loop_step_def
        degenerate_body)
next
  case (Suc k)
  have r1: "(2::real) + 1 \<noteq> 0" by simp
  show ?case
    by (simp add: after_iterations_Suc [OF r1, of _ _ "Suc k"] Suc loop_step_def degenerate_body)
qed

lemma degenerate_result:
  "calibrate 2 [Fin 0, Fin 0] [0, 1] =
     Some (Inr \<lparr> diff = Fin 0, counter_update = 5, solo_scores = [Fin 0, Fin 0] \<rparr>)"
proof -
  have r1: "(2::real) + 1 \<noteq> 0" by simp
  let ?a = "after_iterations 2 [Fin 0, Fin 0] [0, 1]"
  have before: "\<forall>i<5. loop_continues (?a i)"
  proof (intro allI impI)
    fix i :: nat assume i: "i < 5"
    from after_iterations_counter [OF r1, of "[Fin 0, Fin 0]" "[0, 1]" i]
    obtain st where "?a i = Inr st" "counter_update st = i" by blast
    then show "loop_continues (?a i)" using i by (simp add: loop_continues_def loop_cond_def)
  qed
  have five: "?a 5 = Inr \<lparr> diff = Fin 0, counter_update = 5, solo_scores = [Fin 0, Fin 0] \<rparr>"
    using run_degenerate [of 4] by simp
  have stop: "\<not> loop_continues (?a 5)"
    by (simp add: five loop_continues_def loop_cond_def)
  show ?thesis using calibrate_stops_at [OF r1 before stop] by (simp add: five)
qed

section \<open>Claims about the calibration loop\<close>

text \<open>
  Claim C7. With a doublet ratio above zero and initial scores in \<open>[0, 1]\<close>, one per logit,
  every score lies in \<open>[0, 1]\<close> after every pass of the calibration loop, and so does every
  score of the array the loop returns. The initial scores of \<^verbatim>\<open>main\<close> are softmax
  components, which lie strictly between 0 and 1 (\<open>doublet_score_inside\<close>).
\<close>

theorem calibrated_scores_in_unit_interval:
  assumes "0 < doublet_ratio"
    and "length scores0 = length logit_scores"
    and "\<forall>s \<in> set scores0. in_unit_interval s"
  shows "(\<forall>k. \<exists>st. after_iterations doublet_ratio scores0 logit_scores k = Inr st \<and>
                 (\<forall>s \<in> set (solo_scores st). in_unit_interval s)) \<and>
         (\<forall>res. calibrate doublet_ratio scores0 logit_scores = Some res \<longrightarrow>
                 (\<exists>st. res = Inr st \<and> (\<forall>s \<in> set (solo_scores st). in_unit_interval s)))"
proof (intro conjI allI impI)
  fix k
  show "\<exists>st. after_iterations doublet_ratio scores0 logit_scores k = Inr st \<and>
              (\<forall>s \<in> set (solo_scores st). in_unit_interval s)"
    using after_iterations_unit [OF assms, of k] by blast
next
  fix res
  assume "calibrate doublet_ratio scores0 logit_scores = Some res"
  from calibrate_Some [OF this] obtain k
    where "res = after_iterations doublet_ratio scores0 logit_scores k" by blast
  then show "\<exists>st. res = Inr st \<and> (\<forall>s \<in> set (solo_scores st). in_unit_interval s)"
    using after_iterations_unit [OF assms, of k] by auto
qed

text \<open>The theorem at a concrete run.\<close>

theorem calibrated_scores_in_unit_interval_witness:
  "(0::real) < 1 \<and> length [Fin (1 / 3), Fin (2 / 3)] = length [ln 2, - ln 2 :: real] \<and>
   in_unit_interval (Fin (1 / 3)) \<and> in_unit_interval (Fin (2 / 3)) \<and>
   calibrate 1 [Fin (1 / 3), Fin (2 / 3)] [ln 2, - ln 2] =
     Some (Inr \<lparr> diff = Fin 0, counter_update = 5, solo_scores = [Fin (2 / 3), Fin (1 / 3)] \<rparr>) \<and>
   list_all in_unit_interval [Fin (2 / 3), Fin (1 / 3)] \<and>
   (\<forall>k. \<exists>st. after_iterations 1 [Fin (1 / 3), Fin (2 / 3)] [ln 2, - ln 2] k = Inr st \<and>
            list_all in_unit_interval (solo_scores st))"
proof -
  have h: "(0::real) < 1" "length [Fin (1 / 3), Fin (2 / 3)] = length [ln 2, - ln 2 :: real]"
    "\<forall>s \<in> set [Fin (1 / 3), Fin (2 / 3)]. in_unit_interval s"
    by simp_all
  from calibrated_scores_in_unit_interval [OF h] two_cell_result
  have "list_all in_unit_interval [Fin (2 / 3), Fin (1 / 3)] \<and>
        (\<forall>k. \<exists>st. after_iterations 1 [Fin (1 / 3), Fin (2 / 3)] [ln 2, - ln 2] k = Inr st \<and>
            list_all in_unit_interval (solo_scores st))"
    by (auto simp: list_all_iff)
  then show ?thesis using h two_cell_result by simp
qed



text \<open>
  Claim C1 as stated fails. One real cell with the logit pair \<open>(0, 0)\<close> and the default
  doublet ratio 2: the loop leaves after seven passes with \<^verbatim>\<open>diff\<close> at \<open>64/8385\<close>, below the
  tolerance, and returns the score \<open>1/129\<close>, whose mean is far from the target prevalence
  \<open>2/3\<close>.
\<close>

theorem mean_within_tolerance_of_target_counterexample:
  "solo_calibrate [(0, 0)] 1 2 =
     Some (Inr \<lparr> diff = Fin (64 / 8385), counter_update = 7, solo_scores = [Fin (1 / 129)] \<rparr>) \<and>
   \<not> fgt (Fin (64 / 8385)) (Fin (1 / 100)) \<and> (64 / 8385 :: real) \<le> 1 / 100 \<and> (5::nat) \<le> 7 \<and>
   np_mean [Fin (1 / 129)] = Fin (1 / 129) \<and>
   \<not> \<bar>1 / 129 - 2 / (2 + 1)\<bar> \<le> (1 / 100 :: real)"
proof -
  have "solo_calibrate [(0, 0)] 1 2 = calibrate 2 [Fin (1 / 2)] [0]"
    by (simp only: solo_calibrate_def pipeline_one_cell)
  then show ?thesis
    by (simp add: one_cell_result np_mean_def np_sum_def)
qed

text \<open>
  Claim C1, amended. When the loop returns, it has made at least five passes, and
  \<^verbatim>\<open>diff\<close>, the absolute difference between the mean of the scores before the last pass
  and the mean of the returned scores, is not greater than the tolerance \<open>0.01\<close>: when both
  means are numbers they differ by at most \<open>0.01\<close>. The exit test compares the returned
  mean with the previous mean, not with the target prevalence.
\<close>

theorem exit_mean_within_tolerance_of_previous_mean:
  assumes "calibrate doublet_ratio scores0 logit_scores = Some (Inr st)"
  shows "5 \<le> counter_update st \<and>
         (\<exists>prev. after_iterations doublet_ratio scores0 logit_scores (counter_update st - 1) = Inr prev \<and>
             after_iterations doublet_ratio scores0 logit_scores (counter_update st) = Inr st \<and>
             diff st = fabs (fsub (np_mean (solo_scores prev)) (np_mean (solo_scores st))) \<and>
             \<not> fgt (diff st) (Fin (1 / 100)) \<and>
             (\<forall>a b. np_mean (solo_scores prev) = Fin a \<and> np_mean (solo_scores st) = Fin b
                     \<longrightarrow> \<bar>a - b\<bar> \<le> 1 / 100))"
proof -
  let ?a = "after_iterations doublet_ratio scores0 logit_scores"
  have r1: "doublet_ratio + 1 \<noteq> 0"
  proof
    assume "doublet_ratio + 1 = 0"
    then have "calibrate doublet_ratio scores0 logit_scores = Some (Inl ZeroDivisionError)"
      by (simp add: calibrate_def calibrate_loop_def py_div_def)
    with assms show False by simp
  qed
  from calibrate_Some [OF assms] obtain k where k: "Inr st = ?a k" "\<not> loop_continues (Inr st)"
    by blast
  from after_iterations_counter [OF r1, of scores0 logit_scores k] k(1)
  have cnt: "counter_update st = k" by auto
  from k(2) have stop: "5 \<le> counter_update st" "\<not> fgt (diff st) (Fin (1 / 100))"
    by (simp_all add: loop_continues_def loop_cond_def)
  then have sk: "Suc (k - 1) = k" using cnt by simp
  from after_iterations_counter [OF r1, of scores0 logit_scores "k - 1"] obtain prev
    where prev: "?a (k - 1) = Inr prev" by blast
  from after_iterations_Suc_state [OF r1 prev] obtain c where
    "?a (Suc (k - 1)) =
       Inr \<lparr> diff = fabs (fsub (np_mean (solo_scores prev)) (np_mean (update_scores logit_scores c))),
             counter_update = counter_update prev + 1,
             solo_scores = update_scores logit_scores c \<rparr>"
    by blast
  with k(1) have st: "st = \<lparr> diff = fabs (fsub (np_mean (solo_scores prev)) (np_mean (update_scores logit_scores c))),
             counter_update = counter_update prev + 1,
             solo_scores = update_scores logit_scores c \<rparr>"
    by (simp only: sk) simp
  have d: "diff st = fabs (fsub (np_mean (solo_scores prev)) (np_mean (solo_scores st)))"
    by (simp add: st)
  have num: "\<forall>a b. np_mean (solo_scores prev) = Fin a \<and> np_mean (solo_scores st) = Fin b
                     \<longrightarrow> \<bar>a - b\<bar> \<le> 1 / 100"
    using stop(2) by (auto simp: d fsub_def)
  show ?thesis using stop prev k(1) d num by (simp add: cnt)
qed

text \<open>The theorem at a concrete run.\<close>

theorem exit_mean_within_tolerance_of_previous_mean_witness:
  "calibrate 2 [Fin (1 / 2)] [0] =
     Some (Inr \<lparr> diff = Fin (64 / 8385), counter_update = 7, solo_scores = [Fin (1 / 129)] \<rparr>) \<and>
   after_iterations 2 [Fin (1 / 2)] [0] 6 =
     Inr \<lparr> diff = Fin (32 / 2145), counter_update = 6, solo_scores = [Fin (1 / 65)] \<rparr> \<and>
   Fin (64 / 8385) = fabs (fsub (np_mean [Fin (1 / 65)]) (np_mean [Fin (1 / 129)])) \<and>
   \<bar>1 / 65 - 1 / 129\<bar> \<le> (1 / 100 :: real)"
proof -
  have six: "after_iterations 2 [Fin (1 / 2)] [0] 6 =
     Inr \<lparr> diff = Fin (32 / 2145), counter_update = 6, solo_scores = [Fin (1 / 65)] \<rparr>"
    by (simp add: run_one_cell)
  from exit_mean_within_tolerance_of_previous_mean [OF one_cell_result]
  have "Fin (64 / 8385) = fabs (fsub (np_mean [Fin (1 / 65)]) (np_mean [Fin (1 / 129)]))"
    by (simp add: six)
  then show ?thesis using one_cell_result six by simp
qed

text \<open>
  Claim C3 as stated fails: the code has no clamp. With an observed mean of exactly 0 the
  bias is \<open>-inf\<close>, with an observed mean of exactly 1 it is \<open>+inf\<close>.
\<close>

theorem bias_finite_at_degenerate_mean_counterexample:
  "np_mean [Fin 0] = Fin 0 \<and>
   log_odds_update (2 / (2 + 1)) (np_mean [Fin 0]) = Inr NInf \<and> \<not> is_finite NInf \<and>
   np_mean [Fin 1] = Fin 1 \<and>
   log_odds_update (2 / (2 + 1)) (np_mean [Fin 1]) = Inr PInf \<and> \<not> is_finite PInf"
  by (simp add: np_mean_def np_sum_def log_odds_update_def py_div_def fsub_def)

text \<open>
  Claim C3, amended. The log-odds are taken of the observed mean itself. For a doublet
  ratio above zero and an observed mean that is a number, the bias is finite exactly when
  the mean lies strictly between 0 and 1. At a mean of 0 the bias is \<open>-inf\<close> and the pass
  sets every score to 0; at a mean of 1 the bias is \<open>+inf\<close> and the pass sets every score
  to 1.
\<close>

theorem bias_of_unclamped_mean:
  assumes "0 < doublet_ratio"
  shows "\<exists>c. log_odds_update (doublet_ratio / (doublet_ratio + 1)) (Fin m) = Inr c \<and>
           c = fsub (flog (fdiv (Fin m) (fsub (Fin 1) (Fin m)))) (flog (Fin doublet_ratio)) \<and>
           (is_finite c \<longleftrightarrow> 0 < m \<and> m < 1) \<and>
           (m = 0 \<longrightarrow> c = NInf \<and> update_scores logit_scores c = map (\<lambda>l. Fin 0) logit_scores) \<and>
           (m = 1 \<longrightarrow> c = PInf \<and> update_scores logit_scores c = map (\<lambda>l. Fin 1) logit_scores)"
proof -
  let ?c = "fsub (flog (fdiv (Fin m) (fsub (Fin 1) (Fin m)))) (flog (Fin doublet_ratio))"
  from assms have r1: "doublet_ratio + 1 \<noteq> 0" by simp
  have upd: "log_odds_update (doublet_ratio / (doublet_ratio + 1)) (Fin m) = Inr ?c"
    by (rule log_odds_update_ratio [OF r1])
  have zero: "m = 0 \<Longrightarrow> ?c = NInf" using assms by (simp add: fsub_def)
  have one: "m = 1 \<Longrightarrow> ?c = PInf" using assms by (simp add: fsub_def)
  have fin: "is_finite ?c \<longleftrightarrow> 0 < m \<and> m < 1"
  proof (cases "0 < m \<and> m < 1")
    case True
    then show ?thesis using bias_finite [OF assms, of m] by simp
  next
    case False
    then consider "m = 0" | "m = 1" | "m < 0" | "1 < m" by linarith
    then show ?thesis
    proof cases
      case 1 then show ?thesis using zero by simp
    next
      case 2 then show ?thesis using one by simp
    next
      case 3
      then have "m / (1 - m) < 0" by (simp add: divide_neg_pos)
      then show ?thesis using 3 assms by (simp add: fsub_def)
    next
      case 4
      then have "m / (1 - m) < 0" by (simp add: divide_pos_neg)
      then show ?thesis using 4 assms by (simp add: fsub_def)
    qed
  qed
  show ?thesis
    using upd fin zero one by (simp add: update_scores_NInf update_scores_PInf)
qed

text \<open>The theorem at a concrete run.\<close>

theorem bias_of_unclamped_mean_witness:
  "(0::real) < 2 \<and> log_odds_update (2 / (2 + 1)) (Fin 0) = Inr NInf \<and>
   update_scores [0] NInf = [Fin 0]"
  using bias_of_unclamped_mean [of 2 0 "[0]"] by auto

text \<open>
  Claim C4 does not hold of the code. For the logit pair \<open>(0, 1)\<close> the initial score of the
  loop is the softmax component of column 0, \<open>1 / (1 + e)\<close>, while the logit used inside the
  loop is the one of column 1, whose softmax component is \<open>e / (1 + e)\<close>.
\<close>

theorem initial_score_is_softmax_column_0:
  "initial_solo_scores [(0, 1)] 1 = [Fin (1 / (1 + exp 1))] \<and>
   sliced_logit_scores [(0, 1)] 1 = [1] \<and>
   map (\<lambda>row. Fin (snd row)) (softmax [(0, 1)]) = [Fin (exp 1 / (1 + exp 1))] \<and>
   Fin (1 / (1 + exp 1)) \<noteq> Fin (exp 1 / (1 + exp 1))"
proof -
  have "exp (1::real) \<noteq> 1" by simp
  moreover have "(1::real) + exp 1 \<noteq> 0" using exp_gt_zero [of "1::real"] by linarith
  ultimately have "1 / (1 + exp 1) \<noteq> exp 1 / (1 + exp (1::real))"
    by (simp add: field_simps)
  then show ?thesis
    by (simp add: initial_solo_scores_def sliced_logit_scores_def doublet_score_def
        softmax_def logit_doublet_score_def)
qed

text \<open>
  Claim C8 as stated fails. Two cells with the logits 0 and 1 whose initial scores are both
  0 (the float64 softmax gives exactly 0 when it underflows): the observed mean is 0, the
  bias is \<open>-inf\<close> and every pass gives both cells the score 0, so the cell with the greater
  logit does not get the greater score. The rounding of line 266 does the same to large
  logits at a finite bias, where the sigmoid is rounded to 1.
\<close>

theorem strict_logit_order_counterexample:
  "[0, 1 :: real] ! 0 < [0, 1] ! 1 \<and>
   np_mean [Fin 0, Fin 0] = Fin 0 \<and>
   log_odds_update (2 / (2 + 1)) (Fin 0) = Inr NInf \<and>
   update_scores [0, 1] NInf = [Fin 0, Fin 0] \<and>
   after_iterations 2 [Fin 0, Fin 0] [0, 1] 1 =
     Inr \<lparr> diff = Fin 0, counter_update = 1, solo_scores = [Fin 0, Fin 0] \<rparr> \<and>
   calibrate 2 [Fin 0, Fin 0] [0, 1] =
     Some (Inr \<lparr> diff = Fin 0, counter_update = 5, solo_scores = [Fin 0, Fin 0] \<rparr>) \<and>
   \<not> fgt ([Fin 0, Fin 0] ! 1) ([Fin 0, Fin 0] ! 0)"
  using run_degenerate [of 0]
  by (simp add: degenerate_result np_mean_def np_sum_def log_odds_update_def py_div_def fsub_def
      update_scores_NInf)

text \<open>
  Claim C8, amended. Line 266 is evaluated in float64: for every rounding that keeps the
  order, every bias (finite, infinite or \<open>nan\<close>) and all cells \<open>i\<close> and \<open>j\<close> with
  \<open>logit_j \<le> logit_i\<close>, the updated score of \<open>j\<close> is not greater than the one of \<open>i\<close>.
  This holds of the scores after every pass of the loop, whatever the initial scores and
  \<open>d_s\<close> are, and of the scores the loop returns: no pass reorders cells, but cells with
  different logits can get equal scores.
\<close>

theorem updated_scores_keep_logit_order:
  assumes "float_rounding rnd" and "float_exp fl_exp"
    and "i < length logit_scores" and "j < length logit_scores"
    and "logit_scores ! j \<le> logit_scores ! i"
  shows "(\<forall>c. \<not> fgt (float_update_scores rnd fl_exp logit_scores c ! j)
                    (float_update_scores rnd fl_exp logit_scores c ! i)) \<and>
         (\<forall>k st. 1 \<le> k \<and>
              loop_passes (float_update_scores rnd fl_exp) d_s scores0 logit_scores k = Inr st
              \<longrightarrow> \<not> fgt (solo_scores st ! j) (solo_scores st ! i)) \<and>
         (\<forall>st. calibrate_loop (float_update_scores rnd fl_exp) d_s scores0 logit_scores
                 = Some (Inr st)
              \<longrightarrow> \<not> fgt (solo_scores st ! j) (solo_scores st ! i))"
proof -
  let ?upd = "float_update_scores rnd fl_exp"
  let ?p = "loop_passes ?upd d_s scores0 logit_scores"
  have one: "\<not> fgt (?upd logit_scores c ! j) (?upd logit_scores c ! i)" for c
    by (rule float_update_scores_order [OF assms])
  have pass: "\<not> fgt (solo_scores st ! j) (solo_scores st ! i)"
    if "1 \<le> k" "?p k = Inr st" for k st
  proof -
    from that(1) obtain k' where "k = Suc k'" by (cases k) simp_all
    with that(2) obtain c where "solo_scores st = ?upd logit_scores c"
      using loop_passes_scores [of ?upd d_s scores0 logit_scores k' st] by blast
    then show ?thesis using one [of c] by simp
  qed
  have final: "\<not> fgt (solo_scores st ! j) (solo_scores st ! i)"
    if "calibrate_loop ?upd d_s scores0 logit_scores = Some (Inr st)" for st
  proof -
    from calibrate_loop_Some [OF that] obtain k where k: "Inr st = ?p k"
      "\<not> loop_continues (Inr st)" "\<forall>i<k. loop_continues (?p i)" by blast
    have "k \<noteq> 0"
    proof
      assume "k = 0"
      with k(1) have "st = \<lparr> diff = PInf, counter_update = 0, solo_scores = scores0 \<rparr>"
        by (simp add: loop_passes_0 loop_init_def)
      with k(2) show False by (simp add: loop_continues_def loop_cond_def)
    qed
    then have "1 \<le> k" by simp
    from pass [OF this] k(1) show ?thesis by simp
  qed
  from one pass final show ?thesis by blast
qed

text \<open>
  The theorem at the exact evaluation, on the run on two cells, and at a rounding (to the
  integer below) under which the logits 2 and 1 get the same score.
\<close>

theorem updated_scores_keep_logit_order_witness:
  "float_rounding Fin \<and> float_exp (\<lambda>x. Fin (exp x)) \<and>
   0 < length [ln 2, - ln 2 :: real] \<and> 1 < length [ln 2, - ln 2 :: real] \<and>
   [ln 2, - ln 2 :: real] ! 1 \<le> [ln 2, - ln 2] ! 0 \<and>
   calibrate_loop (float_update_scores Fin (\<lambda>x. Fin (exp x))) (1 / 2)
       [Fin (1 / 3), Fin (2 / 3)] [ln 2, - ln 2] =
     Some (Inr \<lparr> diff = Fin 0, counter_update = 5, solo_scores = [Fin (2 / 3), Fin (1 / 3)] \<rparr>) \<and>
   \<not> fgt ([Fin (2 / 3), Fin (1 / 3)] ! 1) ([Fin (2 / 3), Fin (1 / 3)] ! 0) \<and>
   float_rounding (\<lambda>x. Fin (of_int \<lfloor>x\<rfloor>)) \<and>
   0 < length [2, 1 :: real] \<and> 1 < length [2, 1 :: real] \<and> [2, 1 :: real] ! 1 \<le> [2, 1] ! 0 \<and>
   float_update_scores (\<lambda>x. Fin (of_int \<lfloor>x\<rfloor>)) (\<lambda>x. Fin (exp x)) [2, 1] (Fin 0) = [Fin 1, Fin 1] \<and>
   \<not> fgt ([Fin 1, Fin 1] ! 1) ([Fin 1, Fin 1] ! 0)"
proof -
  have h: "0 < length [ln 2, - ln 2 :: real]" "1 < length [ln 2, - ln 2 :: real]"
    "[ln 2, - ln 2 :: real] ! 1 \<le> [ln 2, - ln 2] ! 0"
    by simp_all
  have g: "0 < length [2, 1 :: real]" "1 < length [2, 1 :: real]" "[2, 1 :: real] ! 1 \<le> [2, 1] ! 0"
    by simp_all
  have upd: "float_update_scores Fin (\<lambda>x. Fin (exp x)) = update_scores"
    by (intro ext) (rule float_update_scores_exact)
  have run: "calibrate_loop (float_update_scores Fin (\<lambda>x. Fin (exp x))) (1 / 2)
       [Fin (1 / 3), Fin (2 / 3)] [ln 2, - ln 2] =
     Some (Inr \<lparr> diff = Fin 0, counter_update = 5, solo_scores = [Fin (2 / 3), Fin (1 / 3)] \<rparr>)"
    using calibrate_ratio [of 1 "[Fin (1 / 3), Fin (2 / 3)]" "[ln 2, - ln 2]"]
    by (simp add: upd two_cell_result)
  from updated_scores_keep_logit_order [OF exact_rounding exact_exp h,
      of "1 / 2" "[Fin (1 / 3), Fin (2 / 3)]"] run
  have a: "\<not> fgt ([Fin (2 / 3), Fin (1 / 3)] ! 1) ([Fin (2 / 3), Fin (1 / 3)] ! 0)"
    by auto
  from updated_scores_keep_logit_order [OF floor_rounding exact_exp g]
  have b: "\<not> fgt ([Fin 1, Fin 1] ! 1) ([Fin 1, Fin 1] ! 0)"
    by simp
  show ?thesis
    using exact_rounding exact_exp floor_rounding h g run a b floor_saturates by blast
qed

section \<open>Properties of the threshold selection\<close>

lemma float_overflow_bound_gt_one: "1 < float_overflow_bound"
proof -
  have "(2::real) ^ 1024 = 2 ^ 970 * 2 ^ 54"
    by (simp only: power_add [symmetric]) simp
  then have e: "float_overflow_bound = 2 ^ 970 * (2 ^ 54 - 1)"
    by (simp only: float_overflow_bound_def right_diff_distrib mult_1_right)
  have "(1::real) * 1 < 2 ^ 970 * (2 ^ 54 - 1)"
    by (rule mult_le_less_imp_less) simp_all
  then show ?thesis by (simp only: e mult_1)
qed

lemma float_overflow_bound_le: "float_overflow_bound \<le> 2 ^ 1024"
  by (simp only: float_overflow_bound_def diff_le_eq le_add_same_cancel1 zero_le_power
      zero_le_numeral)

lemma py_int_truediv_overflow: "py_int_truediv (2 ^ 1024) 1 = Inl OverflowError"
proof -
  have nn: "(0::real) \<le> 2 ^ 1024" by (simp only: zero_le_power zero_le_numeral)
  have "\<bar>real_of_int (2 ^ 1024) / real_of_int 1\<bar> = 2 ^ 1024"
    by (simp only: of_int_power of_int_numeral of_int_1 div_by_1 abs_of_nonneg [OF nn])
  then show ?thesis
    using float_overflow_bound_le
    by (simp only: py_int_truediv_def one_neq_zero if_False if_True)
qed

lemma one_score_le: "int (length [x]) \<le> 2 ^ 1024"
proof -
  have "int (length [x]) = 1" by simp
  then show ?thesis by (simp only: one_le_power one_le_numeral)
qed

lemma py_int_truediv_le_one:
  assumes "b \<noteq> 0" "\<bar>real_of_int a / real_of_int b\<bar> \<le> 1"
  shows "py_int_truediv a b = Inr (real_of_int a / real_of_int b)"
proof -
  have "\<not> float_overflow_bound \<le> \<bar>real_of_int a / real_of_int b\<bar>"
    using assms(2) float_overflow_bound_gt_one by linarith
  then show ?thesis using assms(1) by (simp only: py_int_truediv_def if_False)
qed

lemma np_key_inj: "np_key a = np_key b \<Longrightarrow> a = b"
  by (cases a; cases b) simp_all

lemma fgt_iff_key: "fgt a b \<longleftrightarrow> np_key b < np_key a \<and> a \<noteq> NaN"
  by (cases a; cases b) simp_all

lemma np_maximum_cases: "np_maximum a b = a \<or> np_maximum a b = b"
  by (auto simp: np_maximum_def)

lemma np_key_le_NaN: "np_key a \<le> (3, 0)"
  by (cases a) simp_all

lemma np_maximum_upper: "np_key a \<le> np_key (np_maximum a b) \<and> np_key b \<le> np_key (np_maximum a b)"
proof (cases "a = NaN \<or> b = NaN")
  case True
  then show ?thesis by (auto simp: np_maximum_def np_key_le_NaN)
next
  case False
  then show ?thesis
    by (cases "fgt a b") (auto simp: np_maximum_def fgt_iff_key not_less less_imp_le)
qed

lemma foldl_np_maximum:
  "foldl np_maximum x ys \<in> set (x # ys) \<and>
   (\<forall>s \<in> set (x # ys). np_key s \<le> np_key (foldl np_maximum x ys))"
proof (induction ys arbitrary: x)
  case Nil
  show ?case by simp
next
  case (Cons y ys)
  let ?m = "np_maximum x y"
  from Cons [of ?m] have mem: "foldl np_maximum ?m ys \<in> set (?m # ys)"
    and up: "\<forall>s \<in> set (?m # ys). np_key s \<le> np_key (foldl np_maximum ?m ys)" by blast+
  have "foldl np_maximum ?m ys \<in> set (x # y # ys)"
    using mem np_maximum_cases [of x y] by auto
  moreover have "np_key x \<le> np_key (foldl np_maximum ?m ys)"
    "np_key y \<le> np_key (foldl np_maximum ?m ys)"
    using up np_maximum_upper [of x y] by (auto intro: order_trans)
  ultimately show ?case using up by simp
qed

lemma np_max_greatest:
  assumes "xs \<noteq> []"
  shows "\<exists>t. np_max xs = Inr t \<and> t \<in> set xs \<and> (\<forall>s \<in> set xs. np_key s \<le> np_key t)"
proof -
  from assms obtain x ys where xs: "xs = x # ys" by (cases xs) auto
  show ?thesis using foldl_np_maximum [of x ys] by (simp add: xs np_max_def)
qed

lemma argsort_partition_is_argpartition:
  assumes "kth < length a"
  shows "is_argpartition a kth (argsort_partition a kth)"
proof -
  let ?f = "\<lambda>i. np_key (a ! i)"
  let ?idx = "sort_key ?f [0..<length a]"
  have len: "length ?idx = length a" by simp
  have srt: "sorted (map ?f ?idx)" by (rule sorted_sort_key)
  have d: "distinct ?idx" by simp
  have st: "set ?idx = {0..<length a}" by simp
  have low: "\<forall>i \<in> set (take kth ?idx). ?f i \<le> ?f (?idx ! kth)"
  proof
    fix i assume "i \<in> set (take kth ?idx)"
    then obtain p where p: "p < kth" "i = ?idx ! p"
      using assms len by (auto simp: in_set_conv_nth)
    have "map ?f ?idx ! p \<le> map ?f ?idx ! kth"
      using srt p(1) assms len by (intro sorted_nth_mono) simp_all
    then show "?f i \<le> ?f (?idx ! kth)" using p assms len by simp
  qed
  have high: "\<forall>i \<in> set (drop kth ?idx). ?f (?idx ! kth) \<le> ?f i"
  proof
    fix i assume "i \<in> set (drop kth ?idx)"
    then obtain q where q: "q < length (drop kth ?idx)" "i = drop kth ?idx ! q"
      by (auto simp: in_set_conv_nth)
    then have "kth + q < length a" "i = ?idx ! (kth + q)"
      using len by simp_all
    then obtain p where p: "kth + p < length a" "i = ?idx ! (kth + p)" by blast
    have "map ?f ?idx ! kth \<le> map ?f ?idx ! (kth + p)"
      using srt p(1) len by (intro sorted_nth_mono) simp_all
    then show "?f (?idx ! kth) \<le> ?f i" using p assms len by simp
  qed
  show ?thesis
    unfolding is_argpartition_def argsort_partition_def using d st low high by blast
qed

lemma filter_index_count:
  assumes "distinct idx" "set idx = {0..<length a}"
  shows "length (filter P a) = length (filter (\<lambda>i. P (a ! i)) idx)"
proof -
  have "filter P a = filter P (map (\<lambda>i. a ! i) [0..<length a])"
    by (simp add: map_nth)
  then have "length (filter P a) = length (filter (\<lambda>i. P (a ! i)) [0..<length a])"
    by (simp add: filter_map comp_def)
  also have "\<dots> = card ({i. P (a ! i)} \<inter> set [0..<length a])"
    by (rule distinct_length_filter) simp
  also have "\<dots> = card ({i. P (a ! i)} \<inter> set idx)"
    using assms(2) by simp
  also have "\<dots> = length (filter (\<lambda>i. P (a ! i)) idx)"
    using distinct_length_filter [OF assms(1), of "\<lambda>i. P (a ! i)"] by simp
  finally show ?thesis .
qed

lemma doublet_threshold_rank:
  assumes k: "0 < k" "k < int (length scores)"
    and part: "is_argpartition scores (nat k) (part scores (nat k))"
  shows "\<exists>t. doublet_threshold part scores k = Inr t \<and> t \<in> set scores \<and>
           length (filter (\<lambda>s. np_key s < np_key t) scores) < nat k \<and>
           nat k \<le> length (filter (\<lambda>s. np_key s \<le> np_key t) scores)"
proof -
  let ?K = "nat k" and ?idx = "part scores (nat k)" and ?n = "length scores"
  let ?f = "\<lambda>i. np_key (scores ! i)"
  from k have K: "0 < ?K" "?K < ?n" by simp_all
  from part have d: "distinct ?idx" and st: "set ?idx = {0..<?n}"
    and low: "\<forall>i \<in> set (take ?K ?idx). ?f i \<le> ?f (?idx ! ?K)"
    and high: "\<forall>i \<in> set (drop ?K ?idx). ?f (?idx ! ?K) \<le> ?f i"
    by (simp_all add: is_argpartition_def)
  have len: "length ?idx = ?n"
    using distinct_card [OF d] st by simp
  have arg: "np_argpartition part scores k = Inr ?idx"
    using k by (simp add: np_argpartition_def Let_def)
  have inb: "\<forall>i \<in> set (take ?K ?idx). i < ?n"
    using st by (auto dest: in_set_takeD)
  let ?A = "map (\<lambda>i. scores ! i) (take ?K ?idx)"
  have fi: "fancy_index scores (take ?K ?idx) = Inr ?A"
    using inb by (simp add: fancy_index_def)
  have "?A \<noteq> []" using K len by auto
  from np_max_greatest [OF this] obtain t where t: "np_max ?A = Inr t" "t \<in> set ?A"
    "\<forall>s \<in> set ?A. np_key s \<le> np_key t" by blast
  from t(2) obtain i0 where i0: "i0 \<in> set (take ?K ?idx)" "t = scores ! i0" by auto
  have thr: "doublet_threshold part scores k = Inr t"
    by (simp add: doublet_threshold_def arg fi t(1))
  have mem: "t \<in> set scores" using i0 inb by simp
  have split: "length (filter Q ?idx) =
      length (filter Q (take ?K ?idx)) + length (filter Q (drop ?K ?idx))" for Q
    by (metis append_take_drop_id filter_append length_append)
  have all_le: "filter (\<lambda>i. ?f i \<le> np_key t) (take ?K ?idx) = take ?K ?idx"
    using t(3) by (simp add: filter_id_conv)
  have "?K = length (take ?K ?idx)" using K len by simp
  also have "\<dots> \<le> length (filter (\<lambda>i. ?f i \<le> np_key t) ?idx)"
    by (simp only: split [of "\<lambda>i. ?f i \<le> np_key t"] all_le)
  also have "\<dots> = length (filter (\<lambda>s. np_key s \<le> np_key t) scores)"
    by (rule filter_index_count [OF d st, symmetric])
  finally have le: "?K \<le> length (filter (\<lambda>s. np_key s \<le> np_key t) scores)" .
  have pivot: "np_key t \<le> ?f (?idx ! ?K)" using low i0 by simp
  have none: "filter (\<lambda>i. ?f i < np_key t) (drop ?K ?idx) = []"
  proof -
    have "\<not> ?f i < np_key t" if "i \<in> set (drop ?K ?idx)" for i
      using high that pivot by (auto simp: not_less intro: order_trans)
    then show ?thesis by (simp add: filter_empty_conv)
  qed
  have "length (filter (\<lambda>i. ?f i < np_key t) (take ?K ?idx)) < length (take ?K ?idx)"
    by (rule length_filter_less [OF i0(1)]) (simp add: i0(2))
  then have "length (filter (\<lambda>i. ?f i < np_key t) ?idx) < ?K"
    using K len by (simp add: split [of "\<lambda>i. ?f i < np_key t"] none)
  then have lt: "length (filter (\<lambda>s. np_key s < np_key t) scores) < ?K"
    by (simp add: filter_index_count [OF d st, of "\<lambda>s. np_key s < np_key t" ])
  show ?thesis using thr mem lt le by blast
qed

lemma sorted_nth_by_rank:
  fixes zs :: "'a::linorder list"
  assumes "sorted zs" "p < length zs"
    and below: "length (filter (\<lambda>z. z < t) zs) \<le> p"
    and upto: "p < length (filter (\<lambda>z. z \<le> t) zs)"
  shows "zs ! p = t"
proof (rule antisym)
  show "zs ! p \<le> t"
  proof (rule ccontr)
    assume "\<not> zs ! p \<le> t"
    then have gt: "t < zs ! p" by simp
    have "filter (\<lambda>z. z \<le> t) (drop p zs) = []"
    proof -
      have "\<not> z \<le> t" if "z \<in> set (drop p zs)" for z
      proof -
        from that obtain q where "q < length (drop p zs)" "z = drop p zs ! q"
          by (auto simp: in_set_conv_nth)
        then have q: "p + q < length zs" "z = zs ! (p + q)" by simp_all
        have "zs ! p \<le> zs ! (p + q)"
          using assms(1) q(1) by (intro sorted_nth_mono) simp_all
        with gt q(2) show ?thesis by simp
      qed
      then show ?thesis by (simp add: filter_empty_conv)
    qed
    then have "length (filter (\<lambda>z. z \<le> t) zs) = length (filter (\<lambda>z. z \<le> t) (take p zs))"
      by (metis append_take_drop_id filter_append append_Nil2)
    also have "\<dots> \<le> length (take p zs)" by (rule length_filter_le)
    also have "\<dots> = p" using assms(2) by simp
    finally show False using upto by simp
  qed
next
  show "t \<le> zs ! p"
  proof (rule ccontr)
    assume "\<not> t \<le> zs ! p"
    then have lt: "zs ! p < t" by simp
    have all: "filter (\<lambda>z. z < t) (take (Suc p) zs) = take (Suc p) zs"
    proof -
      have "z < t" if "z \<in> set (take (Suc p) zs)" for z
      proof -
        from that obtain q where "q < length (take (Suc p) zs)" "z = take (Suc p) zs ! q"
          by (auto simp: in_set_conv_nth)
        then have q: "q \<le> p" "z = zs ! q" by simp_all
        have "zs ! q \<le> zs ! p"
          using assms(1,2) q(1) by (intro sorted_nth_mono) simp_all
        with lt q(2) show ?thesis by simp
      qed
      then show ?thesis by (simp add: filter_id_conv)
    qed
    have "Suc p = length (take (Suc p) zs)" using assms(2) by simp
    also have "\<dots> = length (filter (\<lambda>z. z < t) (take (Suc p) zs))" by (simp only: all)
    also have "\<dots> \<le> length (filter (\<lambda>z. z < t) zs)"
      by (metis append_take_drop_id filter_append length_append le_add1)
    finally show False using below by simp
  qed
qed

lemma order_statistic_by_rank:
  assumes "0 < k" "k \<le> length scores"
    and "length (filter (\<lambda>s. np_key s < np_key t) scores) < k"
    and "k \<le> length (filter (\<lambda>s. np_key s \<le> np_key t) scores)"
  shows "order_statistic k scores = t"
proof -
  let ?ys = "sort_key np_key scores"
  let ?zs = "map np_key ?ys"
  have cnt: "length (filter (\<lambda>z. Q z) ?zs) = length (filter (\<lambda>s. Q (np_key s)) scores)" for Q
  proof -
    have "length (filter (\<lambda>z. Q z) ?zs) = length (filter (\<lambda>s. Q (np_key s)) ?ys)"
      by (simp add: filter_map comp_def)
    also have "\<dots> = length (sort_key np_key (filter (\<lambda>s. Q (np_key s)) scores))"
      by (simp only: filter_sort)
    finally show ?thesis by simp
  qed
  have c1: "length (filter (\<lambda>z. z < np_key t) ?zs) =
      length (filter (\<lambda>s. np_key s < np_key t) scores)"
    by (rule cnt)
  have c2: "length (filter (\<lambda>z. z \<le> np_key t) ?zs) =
      length (filter (\<lambda>s. np_key s \<le> np_key t) scores)"
    by (rule cnt)
  have "?zs ! (k - 1) = np_key t"
  proof (rule sorted_nth_by_rank)
    show "sorted ?zs" by (rule sorted_sort_key)
    show "k - 1 < length ?zs" using assms(1,2) by simp
    show "length (filter (\<lambda>z. z < np_key t) ?zs) \<le> k - 1"
      using assms(3) unfolding c1 by simp
    show "k - 1 < length (filter (\<lambda>z. z \<le> np_key t) ?zs)"
      using assms(1,4) unfolding c2 by simp
  qed
  then have "np_key (?ys ! (k - 1)) = np_key t" using assms(1,2) by simp
  then show ?thesis by (simp add: order_statistic_def np_key_inj)
qed

lemma length_filter_mono:
  assumes "\<And>x. x \<in> set xs \<Longrightarrow> P x \<Longrightarrow> Q x"
  shows "length (filter P xs) \<le> length (filter Q xs)"
  using assms by (induction xs) auto

lemma length_filter_eq_distinct: "distinct xs \<Longrightarrow> length (filter (\<lambda>s. s = t) xs) \<le> 1"
proof (induction xs)
  case Nil
  show ?case by simp
next
  case (Cons x xs)
  show ?case
  proof (cases "x = t")
    case True
    with Cons.prems have "t \<notin> set xs" by simp
    then have "filter (\<lambda>s. s = t) xs = []" by (auto simp: filter_empty_conv)
    with True show ?thesis by simp
  next
    case False
    with Cons show ?thesis by simp
  qed
qed

lemma length_filter_le_split:
  "length (filter (\<lambda>s. np_key s \<le> np_key t) xs) =
     length (filter (\<lambda>s. np_key s < np_key t) xs) + length (filter (\<lambda>s. s = t) xs)"
proof (induction xs)
  case Nil
  show ?case by simp
next
  case (Cons x xs)
  have "np_key x \<le> np_key t \<longleftrightarrow> np_key x < np_key t \<or> x = t"
    using np_key_inj [of x t] by (auto simp: le_less)
  moreover have "\<not> (np_key x < np_key t \<and> x = t)" by auto
  ultimately show ?case using Cons by auto
qed

lemma length_filter_above:
  "length (filter (\<lambda>s. np_key t < np_key s) xs) =
     length xs - length (filter (\<lambda>s. np_key s \<le> np_key t) xs)"
proof -
  have "(\<lambda>s. np_key t < np_key s) = (\<lambda>s. \<not> np_key s \<le> np_key t)"
    by (simp add: not_le)
  then show ?thesis
    using sum_length_filter_compl [of "\<lambda>s. np_key s \<le> np_key t" xs] by simp
qed

subsection \<open>Two score arrays: one with ties at the threshold, one with distinct scores\<close>

lemma ties_sorted:
  "argsort_partition [Fin (1 / 10), Fin (1 / 5), Fin (1 / 5), Fin (1 / 5), Fin (9 / 10)] 3 = [0, 1, 2, 3, 4]"
  by (simp add: argsort_partition_def upt_rec)

lemma ties_threshold:
  "doublet_threshold argsort_partition
     [Fin (1 / 10), Fin (1 / 5), Fin (1 / 5), Fin (1 / 5), Fin (9 / 10)] 3 = Inr (Fin (1 / 5))"
  by (simp add: doublet_threshold_def np_argpartition_def ties_sorted fancy_index_def np_max_def
      np_maximum_def)

lemma ties_calls:
  "select_threshold argsort_partition
     [Fin (1 / 10), Fin (1 / 5), Fin (1 / 5), Fin (1 / 5), Fin (9 / 10)] (Some 2) =
     Inr [False, False, False, False, True]"
  by (simp add: select_threshold_def py_int_truediv_le_one ties_threshold)

lemma ties_order_statistic:
  "order_statistic 3 [Fin (1 / 10), Fin (1 / 5), Fin (1 / 5), Fin (1 / 5), Fin (9 / 10)] = Fin (1 / 5)"
  by (simp add: order_statistic_def)

lemma distinct_sorted:
  "argsort_partition [Fin (3 / 10), Fin (1 / 10), Fin (2 / 5), Fin (1 / 5)] 3 = [1, 3, 0, 2]"
  by (simp add: argsort_partition_def upt_rec)

lemma distinct_threshold:
  "doublet_threshold argsort_partition
     [Fin (3 / 10), Fin (1 / 10), Fin (2 / 5), Fin (1 / 5)] 3 = Inr (Fin (3 / 10))"
  by (simp add: doublet_threshold_def np_argpartition_def distinct_sorted fancy_index_def np_max_def
      np_maximum_def)

lemma distinct_calls:
  "select_threshold argsort_partition
     [Fin (3 / 10), Fin (1 / 10), Fin (2 / 5), Fin (1 / 5)] (Some 1) =
     Inr [False, False, True, False]"
  by (simp add: select_threshold_def py_int_truediv_le_one distinct_threshold)

subsection \<open>The run on an empty population, and the lengths of the results\<close>

lemma after_iterations_empty:
  assumes "r + 1 \<noteq> 0"
  shows "after_iterations r [] [] (Suc k) =
           Inr \<lparr> diff = NaN, counter_update = Suc k, solo_scores = [] \<rparr>"
proof (induction k)
  case 0
  show ?case
    using assms odds_of_ratio [OF assms]
    by (simp add: after_iterations_def loop_passes_def py_div_def loop_init_def loop_step_def loop_body_def
        log_odds_update_def np_mean_Nil update_scores_Nil fsub_def)
next
  case (Suc k)
  show ?case
    using assms odds_of_ratio [OF assms]
    by (simp add: after_iterations_Suc [OF assms, of _ _ "Suc k"] Suc loop_step_def loop_body_def
        log_odds_update_def py_div_def np_mean_Nil update_scores_Nil fsub_def)
qed

lemma empty_result:
  assumes "r + 1 \<noteq> 0"
  shows "calibrate r [] [] = Some (Inr \<lparr> diff = NaN, counter_update = 5, solo_scores = [] \<rparr>)"
proof -
  have before: "\<forall>i<5. loop_continues (after_iterations r [] [] i)"
  proof (intro allI impI)
    fix i :: nat assume i: "i < 5"
    from after_iterations_counter [OF assms, of "[]" "[]" i]
    obtain st where "after_iterations r [] [] i = Inr st" "counter_update st = i" by blast
    then show "loop_continues (after_iterations r [] [] i)"
      using i by (simp add: loop_continues_def loop_cond_def)
  qed
  have five: "after_iterations r [] [] 5 = Inr \<lparr> diff = NaN, counter_update = 5, solo_scores = [] \<rparr>"
    using after_iterations_empty [OF assms, of 4] by simp
  have stop: "\<not> loop_continues (after_iterations r [] [] 5)"
    by (simp add: five loop_continues_def loop_cond_def)
  show ?thesis using calibrate_stops_at [OF assms before stop] by (simp add: five)
qed

lemma select_threshold_length:
  "select_threshold part scores expected = Inr calls \<Longrightarrow> length calls = length scores"
  by (auto simp: select_threshold_def Let_def split: option.splits sum.splits if_splits)

lemma calibrate_length:
  assumes "calibrate r s0 ls = Some (Inr st)"
  shows "length (solo_scores st) = length ls"
proof -
  have r1: "r + 1 \<noteq> 0"
  proof
    assume "r + 1 = 0"
    then have "calibrate r s0 ls = Some (Inl ZeroDivisionError)"
      by (simp add: calibrate_def calibrate_loop_def py_div_def)
    with assms show False by simp
  qed
  from calibrate_Some [OF assms] obtain k where k: "Inr st = after_iterations r s0 ls k"
    "\<not> loop_continues (Inr st)" by blast
  from after_iterations_counter [OF r1, of s0 ls k] k(1) have "counter_update st = k" by auto
  with k(2) have "Suc (k - 1) = k" by (simp add: loop_continues_def loop_cond_def)
  from after_iterations_counter [OF r1, of s0 ls "k - 1"] obtain prev
    where prev: "after_iterations r s0 ls (k - 1) = Inr prev" by blast
  from after_iterations_Suc_state [OF r1 prev] obtain c
    where "after_iterations r s0 ls (Suc (k - 1)) =
       Inr \<lparr> diff = fabs (fsub (np_mean (solo_scores prev)) (np_mean (update_scores ls c))),
             counter_update = counter_update prev + 1, solo_scores = update_scores ls c \<rparr>"
    by blast
  with k(1) \<open>Suc (k - 1) = k\<close> have "solo_scores st = update_scores ls c" by simp
  then show ?thesis by (simp add: length_update_scores)
qed

lemma solo_calls_synthetic_slice:
  assumes "solo_calls part logit_predictions num_cells doublet_ratio expected = Some (Inr out)"
  shows "length (is_solo_doublet out) = min num_cells (length logit_predictions) \<and>
         is_doublet_sim_npy out = []"
proof -
  from assms obtain st calls where
    st: "solo_calibrate logit_predictions num_cells doublet_ratio = Some (Inr st)" and
    calls: "select_threshold part (solo_scores st) expected = Inr calls" and
    out: "out = \<lparr> is_solo_doublet = calls, is_doublet_npy = take num_cells calls,
                  is_doublet_sim_npy = drop num_cells calls \<rparr>"
    by (auto simp: solo_calls_def split: option.splits sum.splits)
  from st have "length (solo_scores st) = length (sliced_logit_scores logit_predictions num_cells)"
    unfolding solo_calibrate_def by (rule calibrate_length)
  then have "length calls = min num_cells (length logit_predictions)"
    using select_threshold_length [OF calls]
    by (simp add: sliced_logit_scores_def logit_doublet_score_def min.commute)
  then show ?thesis by (simp add: out)
qed

section \<open>Claims about the threshold selection\<close>

text \<open>
  Claim C5. Let \<open>0 < e < n\<close> for \<open>n\<close> scores and \<open>k = n - e\<close>, and let the result of
  \<^verbatim>\<open>np.argpartition\<close> be a partition of the indices around position \<open>k\<close>. Then the
  threshold is the \<open>k\<close>-th smallest score, the calls are \<open>scores[i] > threshold\<close>, at most
  \<open>e\<close> calls are true, and a score equal to the threshold is called false. If the scores
  are distinct numbers, exactly \<open>e\<close> calls are true, and every called cell scores higher
  than every cell that is not called.
\<close>

theorem expected_doublets_threshold:
  assumes "0 < e" and "e < int (length scores)"
    and "is_argpartition scores (nat (int (length scores) - e))
           (part scores (nat (int (length scores) - e)))"
  shows "\<exists>threshold calls.
      doublet_threshold part scores (int (length scores) - e) = Inr threshold \<and>
      threshold = order_statistic (nat (int (length scores) - e)) scores \<and>
      select_threshold part scores (Some e) = Inr calls \<and>
      calls = map (\<lambda>s. fgt s threshold) scores \<and>
      length (filter (\<lambda>c. c) calls) \<le> nat e \<and>
      (\<forall>i<length scores. scores ! i = threshold \<longrightarrow> \<not> calls ! i) \<and>
      (distinct scores \<and> NaN \<notin> set scores \<longrightarrow>
         length (filter (\<lambda>c. c) calls) = nat e \<and>
         (\<forall>i<length scores. \<forall>j<length scores.
             calls ! i \<and> \<not> calls ! j \<longrightarrow> fgt (scores ! i) (scores ! j)))"
proof -
  let ?n = "length scores"
  let ?k = "int ?n - e"
  let ?K = "nat ?k"
  from assms(1,2) have k: "0 < ?k" "?k < int ?n" by simp_all
  then have K: "0 < ?K" "?K \<le> ?n" "?n - ?K = nat e" by simp_all
  from doublet_threshold_rank [of ?k scores part, OF k assms(3)] obtain t where
    thr: "doublet_threshold part scores ?k = Inr t" and
    below: "length (filter (\<lambda>s. np_key s < np_key t) scores) < ?K" and
    upto: "?K \<le> length (filter (\<lambda>s. np_key s \<le> np_key t) scores)"
    by blast
  let ?calls = "map (\<lambda>s. fgt s t) scores"
  have os: "t = order_statistic ?K scores"
    using order_statistic_by_rank [OF K(1,2) below upto] by simp
  have "real_of_int e \<le> real ?n" "0 < real ?n" "0 \<le> real_of_int e"
    using assms(1,2) by linarith+
  then have "\<bar>real_of_int e / real_of_int (int ?n)\<bar> \<le> 1"
    by (simp add: divide_le_eq_1)
  moreover have "int ?n \<noteq> 0" using assms(1,2) by linarith
  ultimately have quot: "py_int_truediv e (int ?n) = Inr (real_of_int e / real_of_int (int ?n))"
    by (intro py_int_truediv_le_one)
  have sel: "select_threshold part scores (Some e) = Inr ?calls"
    using k(1) by (simp add: select_threshold_def Let_def quot thr)
  have cnt: "length (filter (\<lambda>c. c) ?calls) = length (filter (\<lambda>s. fgt s t) scores)"
    by (simp add: filter_map comp_def)
  have "length (filter (\<lambda>s. fgt s t) scores) \<le> length (filter (\<lambda>s. np_key t < np_key s) scores)"
    by (rule length_filter_mono) (simp add: fgt_iff_key)
  also have "\<dots> = ?n - length (filter (\<lambda>s. np_key s \<le> np_key t) scores)"
    by (rule length_filter_above)
  also have "\<dots> \<le> ?n - ?K" using upto by simp
  finally have atmost: "length (filter (\<lambda>c. c) ?calls) \<le> nat e"
    by (simp only: cnt K(3))
  have ties: "\<forall>i<?n. scores ! i = t \<longrightarrow> \<not> ?calls ! i"
    by (simp add: fgt_iff_key)
  have exact: "length (filter (\<lambda>c. c) ?calls) = nat e \<and>
         (\<forall>i<?n. \<forall>j<?n. ?calls ! i \<and> \<not> ?calls ! j \<longrightarrow> fgt (scores ! i) (scores ! j))"
    if dist: "distinct scores" and nonan: "NaN \<notin> set scores"
  proof
    have gt: "fgt s t \<longleftrightarrow> np_key t < np_key s" if "s \<in> set scores" for s
      using that nonan by (auto simp: fgt_iff_key)
    have "length (filter (\<lambda>s. np_key s \<le> np_key t) scores) \<le> ?K"
      using below length_filter_eq_distinct [OF dist, of t]
      by (simp add: length_filter_le_split)
    with upto have eq: "length (filter (\<lambda>s. np_key s \<le> np_key t) scores) = ?K" by simp
    have "length (filter (\<lambda>s. fgt s t) scores) = length (filter (\<lambda>s. np_key t < np_key s) scores)"
      using gt by (intro arg_cong [of _ _ length] filter_cong) simp_all
    also have "\<dots> = ?n - ?K" by (simp add: length_filter_above eq)
    finally show "length (filter (\<lambda>c. c) ?calls) = nat e" by (simp only: cnt K(3))
    show "\<forall>i<?n. \<forall>j<?n. ?calls ! i \<and> \<not> ?calls ! j \<longrightarrow> fgt (scores ! i) (scores ! j)"
    proof (intro allI impI)
      fix i j assume ij: "i < ?n" "j < ?n" and c: "?calls ! i \<and> \<not> ?calls ! j"
      from ij nonan have nn: "scores ! i \<noteq> NaN" by (metis nth_mem)
      from c ij gt have "np_key t < np_key (scores ! i)" "\<not> np_key t < np_key (scores ! j)"
        by simp_all
      then have "np_key (scores ! j) < np_key (scores ! i)" by simp
      then show "fgt (scores ! i) (scores ! j)" using nn by (simp add: fgt_iff_key)
    qed
  qed
  show ?thesis
    using thr os sel atmost ties exact by blast
qed

text \<open>The theorem at concrete inputs.\<close>

theorem expected_doublets_threshold_witness:
  "(0::int) < 2 \<and>
   2 < int (length [Fin (1 / 10), Fin (1 / 5), Fin (1 / 5), Fin (1 / 5), Fin (9 / 10)]) \<and>
   is_argpartition [Fin (1 / 10), Fin (1 / 5), Fin (1 / 5), Fin (1 / 5), Fin (9 / 10)] 3
     (argsort_partition [Fin (1 / 10), Fin (1 / 5), Fin (1 / 5), Fin (1 / 5), Fin (9 / 10)] 3) \<and>
   doublet_threshold argsort_partition
     [Fin (1 / 10), Fin (1 / 5), Fin (1 / 5), Fin (1 / 5), Fin (9 / 10)] 3 = Inr (Fin (1 / 5)) \<and>
   order_statistic 3 [Fin (1 / 10), Fin (1 / 5), Fin (1 / 5), Fin (1 / 5), Fin (9 / 10)] = Fin (1 / 5) \<and>
   select_threshold argsort_partition
     [Fin (1 / 10), Fin (1 / 5), Fin (1 / 5), Fin (1 / 5), Fin (9 / 10)] (Some 2) =
     Inr [False, False, False, False, True] \<and>
   length (filter (\<lambda>c. c) [False, False, False, False, True]) = 1 \<and>
   (0::int) < 1 \<and>
   1 < int (length [Fin (3 / 10), Fin (1 / 10), Fin (2 / 5), Fin (1 / 5)]) \<and>
   is_argpartition [Fin (3 / 10), Fin (1 / 10), Fin (2 / 5), Fin (1 / 5)] 3
     (argsort_partition [Fin (3 / 10), Fin (1 / 10), Fin (2 / 5), Fin (1 / 5)] 3) \<and>
   distinct [Fin (3 / 10), Fin (1 / 10), Fin (2 / 5), Fin (1 / 5)] \<and>
   NaN \<notin> set [Fin (3 / 10), Fin (1 / 10), Fin (2 / 5), Fin (1 / 5)] \<and>
   select_threshold argsort_partition
     [Fin (3 / 10), Fin (1 / 10), Fin (2 / 5), Fin (1 / 5)] (Some 1) =
     Inr [False, False, True, False] \<and>
   length (filter (\<lambda>c. c) [False, False, True, False]) = nat 1"
proof -
  let ?ties = "[Fin (1 / 10), Fin (1 / 5), Fin (1 / 5), Fin (1 / 5), Fin (9 / 10)]"
  let ?dist = "[Fin (3 / 10), Fin (1 / 10), Fin (2 / 5), Fin (1 / 5)]"
  have t: "(0::int) < 2" "2 < int (length ?ties)"
    "is_argpartition ?ties (nat (int (length ?ties) - 2))
       (argsort_partition ?ties (nat (int (length ?ties) - 2)))"
    by (simp_all add: argsort_partition_is_argpartition)
  have d: "(0::int) < 1" "1 < int (length ?dist)"
    "is_argpartition ?dist (nat (int (length ?dist) - 1))
       (argsort_partition ?dist (nat (int (length ?dist) - 1)))"
    by (simp_all add: argsort_partition_is_argpartition)
  have n: "nat (int (length ?ties) - 2) = 3" "nat (int (length ?dist) - 1) = 3" by simp_all
  from expected_doublets_threshold [of 2 ?ties argsort_partition, OF t]
  have "length (filter (\<lambda>c. c) [False, False, False, False, True]) \<le> nat 2"
    by (simp add: ties_calls)
  moreover from expected_doublets_threshold [of 1 ?dist argsort_partition, OF d]
  have "length (filter (\<lambda>c. c) [False, False, True, False]) = nat 1"
    by (simp add: distinct_calls)
  ultimately show ?thesis
    using t d unfolding n
    by (simp add: ties_threshold ties_calls ties_order_statistic distinct_calls)
qed

text \<open>
  Claim C6 as stated fails. With one real cell and an expected number of doublets of
  \<open>2^1024\<close>, the quotient of line 279 is too large for a float and raises
  \<open>OverflowError\<close> before the assertion is reached.
\<close>

theorem assertion_failure_counterexample:
  "int (length [Fin (1 / 129)]) \<le> 2 ^ 1024 \<and>
   select_threshold argsort_partition [Fin (1 / 129)] (Some (2 ^ 1024)) = Inl OverflowError \<and>
   solo_calls argsort_partition [(0, 0)] 1 2 (Some (2 ^ 1024)) = Some (Inl OverflowError) \<and>
   OverflowError \<noteq> AssertionError"
proof -
  have len: "int (length [Fin (1 / 129)]) = 1" by simp
  have sel: "select_threshold argsort_partition [Fin (1 / 129)] (Some (2 ^ 1024)) = Inl OverflowError"
    by (simp only: select_threshold_def option.case Let_def len py_int_truediv_overflow sum.case)
  have cal: "solo_calibrate [(0, 0)] 1 2 =
      Some (Inr \<lparr> diff = Fin (64 / 8385), counter_update = 7, solo_scores = [Fin (1 / 129)] \<rparr>)"
    by (simp only: solo_calibrate_def pipeline_one_cell one_cell_result)
  have run: "solo_calls argsort_partition [(0, 0)] 1 2 (Some (2 ^ 1024)) = Some (Inl OverflowError)"
    by (simp only: solo_calls_def cal option.case sum.case loop_state.select_convs sel)
  have ne: "OverflowError \<noteq> AssertionError" by simp
  show ?thesis using one_score_le [of "Fin (1 / 129)"] sel run ne by blast
qed

text \<open>
  Claim C6, amended. When the expected number of doublets \<open>e\<close> is at least the number \<open>n\<close>
  of scores, the selection raises before any call is produced: \<open>ZeroDivisionError\<close> when
  \<open>n = 0\<close>, \<open>OverflowError\<close> when \<open>n > 0\<close> and the quotient \<open>e / n\<close> is too large for a
  float (at least \<open>2^1024 - 2^970\<close>), and \<open>AssertionError\<close> otherwise.
\<close>

theorem threshold_selection_fails_without_calls:
  assumes "int (length scores) \<le> e"
  shows "select_threshold part scores (Some e) =
           Inl (if scores = [] then ZeroDivisionError
                else if float_overflow_bound \<le> real_of_int e / real (length scores)
                then OverflowError else AssertionError)"
proof (cases "scores = []")
  case True
  then show ?thesis by (simp add: select_threshold_def py_int_truediv_def)
next
  case False
  then have n: "0 < real (length scores)" by simp
  with assms have "0 \<le> real_of_int e" by linarith
  with n have "\<bar>real_of_int e / real_of_int (int (length scores))\<bar>
                 = real_of_int e / real (length scores)"
    by simp
  then show ?thesis
    using False assms by (simp add: select_threshold_def py_int_truediv_def Let_def)
qed

text \<open>The theorem at concrete inputs: each of the three errors.\<close>

theorem threshold_selection_fails_without_calls_witness:
  "int (length [Fin (1 / 2)]) \<le> 1 \<and>
   select_threshold argsort_partition [Fin (1 / 2)] (Some 1) = Inl AssertionError \<and>
   int (length [Fin (1 / 2)]) \<le> 2 ^ 1024 \<and>
   select_threshold argsort_partition [Fin (1 / 2)] (Some (2 ^ 1024)) = Inl OverflowError \<and>
   int (length ([] :: npfloat list)) \<le> 0 \<and>
   select_threshold argsort_partition [] (Some 0) = Inl ZeroDivisionError"
proof -
  have h1: "int (length [Fin (1 / 2)]) \<le> 1" by simp
  have h2: "int (length [Fin (1 / 2)]) \<le> 2 ^ 1024" by (rule one_score_le)
  have h3: "int (length ([] :: npfloat list)) \<le> 0" by simp
  have one: "real (length [Fin (1 / 2)]) = 1" by simp
  have big: "float_overflow_bound \<le> real_of_int (2 ^ 1024) / real (length [Fin (1 / 2)])"
    using float_overflow_bound_le
    by (simp only: one of_int_power of_int_numeral div_by_1)
  have small: "\<not> float_overflow_bound \<le> real_of_int 1 / real (length [Fin (1 / 2)])"
    using float_overflow_bound_gt_one by (simp only: one of_int_1 div_by_1 not_le)
  have a: "select_threshold argsort_partition [Fin (1 / 2)] (Some 1) = Inl AssertionError"
    using threshold_selection_fails_without_calls [OF h1, of argsort_partition] small
    by (simp only: if_False list.distinct)
  have b: "select_threshold argsort_partition [Fin (1 / 2)] (Some (2 ^ 1024)) = Inl OverflowError"
    using threshold_selection_fails_without_calls [OF h2, of argsort_partition] big
    by (simp only: if_False if_True list.distinct)
  have c: "select_threshold argsort_partition [] (Some 0) = Inl ZeroDivisionError"
    using threshold_selection_fails_without_calls [OF h3, of argsort_partition]
    by simp
  show ?thesis using h1 h2 h3 a b c by blast
qed

text \<open>
  Claim C10. For a score array that is not empty and an expected number of doublets of 0,
  \<open>k\<close> is the number of scores: the assertion \<open>k > 0\<close> passes, \<^verbatim>\<open>np.argpartition\<close> raises
  \<open>ValueError\<close> because \<open>k\<close> is out of bounds, and the selection ends with that error
  instead of a call array.
\<close>

theorem zero_expected_doublets_aborts:
  assumes "scores \<noteq> []"
  shows "0 < int (length scores) - 0 \<and>
         np_argpartition part scores (int (length scores) - 0) = Inl ValueError \<and>
         select_threshold part scores (Some 0) = Inl ValueError"
  using assms
  by (simp add: select_threshold_def py_int_truediv_le_one Let_def doublet_threshold_def
      np_argpartition_def)

text \<open>The theorem at concrete inputs.\<close>

theorem zero_expected_doublets_aborts_witness:
  "[Fin (1 / 2)] \<noteq> [] \<and> (0::int) < int (length [Fin (1 / 2)]) - 0 \<and>
   np_argpartition argsort_partition [Fin (1 / 2)] (int (length [Fin (1 / 2)]) - 0) = Inl ValueError \<and>
   select_threshold argsort_partition [Fin (1 / 2)] (Some 0) = Inl ValueError"
  using zero_expected_doublets_aborts [of "[Fin (1 / 2)]" argsort_partition]
  by simp

text \<open>
  Claim C9 does not hold of the code. With one real and one simulated cell, the call array
  has one entry, the one of the real cell, and the slice saved for the simulated cells is
  empty. \<open>solo_calls_synthetic_slice\<close> shows this of every run.
\<close>

theorem synthetic_call_slice_is_empty:
  "length [(0, 0), (0, 0) :: real \<times> real] = 1 + 1 \<and>
   solo_calls argsort_partition [(0, 0), (0, 0)] 1 2 None =
     Some (Inr \<lparr> is_solo_doublet = [False], is_doublet_npy = [False],
                 is_doublet_sim_npy = [] \<rparr>)"
proof -
  have "initial_solo_scores [(0, 0), (0, 0)] 1 = [Fin (1 / 2)]"
    "sliced_logit_scores [(0, 0), (0, 0)] 1 = [0]"
    by (simp_all add: initial_solo_scores_def sliced_logit_scores_def doublet_score_def
        softmax_def logit_doublet_score_def)
  then have "solo_calibrate [(0, 0), (0, 0)] 1 2 = calibrate 2 [Fin (1 / 2)] [0]"
    by (simp only: solo_calibrate_def)
  then show ?thesis
    by (simp add: solo_calls_def one_cell_result select_threshold_def)
qed

end
